theory Spec2Isabelle
  imports Main
begin

section \<open>iotsend: the command-line front-end of the IOT client\<close>

text \<open>
  A shallow embedding of \<^verbatim>\<open>src/iotsend.c\<close>. A C string is the list of its bytes
  before the terminating NUL, so \<^verbatim>\<open>strlen\<close> is \<open>length\<close>. The strings of the program
  all come from \<^verbatim>\<open>argv\<close>, whose elements the kernel keeps far below \<^verbatim>\<open>INT_MAX\<close> bytes,
  so the \<^verbatim>\<open>int\<close> index of the header loop is a natural number that never overflows.
\<close>

subsection \<open>The header rewrite loop of SendMessage\<close>

text \<open>
  \<^verbatim>\<open>for ( i=0; i<strlen(headers); i++ ) { if ( headers[i] == ';' ) { headers[i] = '\n'; } }\<close>
  The buffer is updated in place; the length is read again at every iteration.
\<close>

abbreviation NL :: char where
  "NL \<equiv> CHR 0x0A"

function rewrite_from :: "nat \<Rightarrow> string \<Rightarrow> string" where
  "rewrite_from i hs =
     (if i < length hs
      then rewrite_from (i + 1) (if hs ! i = CHR '';'' then hs[i := NL] else hs)
      else hs)"
  by pat_completeness auto
termination
  by (relation "measure (\<lambda>(i, hs). length hs - i)") auto

declare rewrite_from.simps [simp del]

definition rewrite_headers :: "string \<Rightarrow> string" where
  "rewrite_headers hs = rewrite_from 0 hs"

subsection \<open>Strings on the heap\<close>

text \<open>
  \<^verbatim>\<open>strdup\<close> returns a fresh buffer and the program later writes through a second
  pointer to it, so the buffers live in an explicit store: an address is an index into the
  list of cells, a freed cell is \<open>None\<close>. Allocation is taken to succeed. Reading through
  a pointer that was never allocated has no meaning in C; \<open>read_str\<close> gives the empty
  string there, and \<open>ProcessOptions\<close> never stores such a pointer.
\<close>

type_synonym addr = nat
type_synonym store = "string option list"

definition strdup :: "string \<Rightarrow> store \<Rightarrow> addr \<times> store" where
  "strdup s h = (length h, h @ [Some s])"

definition free :: "addr \<Rightarrow> store \<Rightarrow> store" where
  "free a h = h[a := None]"

definition read_str :: "store \<Rightarrow> addr \<Rightarrow> string" where
  "read_str h a = (if a < length h then (case h ! a of Some s \<Rightarrow> s | None \<Rightarrow> []) else [])"

subsection \<open>The world outside the program\<close>

text \<open>
  The client library, the file system and the two constants of
  \<^verbatim>\<open>iotclient/iotclient.h\<close> (\<^verbatim>\<open>EOK\<close>, \<^verbatim>\<open>MAX_IOT_MSG_SIZE\<close>) are not part of the
  sources; a run takes them as parameters. \<open>client_create\<close> is the handle returned by
  \<^verbatim>\<open>IOTCLIENT_Create\<close> (\<open>None\<close> for \<^verbatim>\<open>NULL\<close>), \<open>client_stream\<close> the result of
  \<^verbatim>\<open>IOTCLIENT_Stream\<close>, \<open>sys_stat\<close> the \<^verbatim>\<open>st_size\<close> of a path when \<^verbatim>\<open>stat\<close> returns 0,
  \<open>sys_open\<close> the descriptor returned by \<^verbatim>\<open>open\<close> (\<open>-1\<close> on failure).
  \<open>posixly_correct\<close> tells whether the environment variable \<^verbatim>\<open>POSIXLY_CORRECT\<close> is
  set, which \<^verbatim>\<open>getopt\<close> reads.
\<close>

record env =
  client_create :: "nat option"
  client_stream :: "nat option \<Rightarrow> string \<Rightarrow> int \<Rightarrow> int"
  sys_stat :: "string \<Rightarrow> int option"
  sys_open :: "string \<Rightarrow> int"
  EOK :: int
  MAX_IOT_MSG_SIZE :: int
  posixly_correct :: bool

definition EINVAL :: int where
  "EINVAL = 22"

definition STDIN_FILENO :: int where
  "STDIN_FILENO = 0"

text \<open>What a run does to the outside, in order.\<close>

datatype event =
    Stderr string
  | Getopt_error char
  | IOTCLIENT_Create
  | IOTCLIENT_SetVerbose bool
  | IOTCLIENT_Stream "nat option" string int
  | IOTCLIENT_Close
  | Stat string
  | Open string int
  | Close int

subsection \<open>The program state\<close>

record IOTSendState =
  hIoTClient :: "nat option"
  verbose :: bool
  fileName :: "addr option"
  headers :: "addr option"

record machine =
  state :: IOTSendState
  heap :: store
  trace :: "event list"

text \<open>The global \<^verbatim>\<open>state\<close> object is zero-initialised.\<close>

definition machine_init :: machine where
  "machine_init =
     \<lparr>state = \<lparr>hIoTClient = None, verbose = False, fileName = None, headers = None\<rparr>,
      heap = [], trace = []\<rparr>"

definition emit :: "event \<Rightarrow> machine \<Rightarrow> machine" where
  "emit e m = m\<lparr>trace := trace m @ [e]\<rparr>"

subsection \<open>getopt\<close>

text \<open>
  The C library's option scanner, after the GNU implementation. \<open>args\<close> is the argument
  vector, which the scanner reorders: by default it moves the arguments that are not
  options (an argument not starting with \<^verbatim>\<open>-\<close>, or \<^verbatim>\<open>-\<close> alone) behind the options
  that follow them, so that options are found wherever they stand, up to \<^verbatim>\<open>--\<close>; at
  the end \<^verbatim>\<open>optind\<close> is the index of the first of the arguments moved back. With
  \<^verbatim>\<open>POSIXLY_CORRECT\<close> set (\<open>pc\<close>) nothing is moved and the scan stops at the first
  argument that is not an option, which is also what a library without reordering does.
  \<open>first_nonopt\<close> and \<open>last_nonopt\<close> delimit the non-options skipped so far,
  \<open>nextchar\<close> holds the option characters of the current argument still to be scanned.
  A character that is not in the option string, and an option left without its argument,
  give \<^verbatim>\<open>'?'\<close> and a message of the library's own on standard error. \<open>None\<close> is the
  return value \<open>-1\<close>.
\<close>

record getopt_state =
  args :: "string list"
  optind :: nat
  nextchar :: string
  optarg :: "string option"
  first_nonopt :: nat
  last_nonopt :: nat

definition getopt_init :: "string list \<Rightarrow> getopt_state" where
  "getopt_init argv =
     \<lparr>args = argv, optind = 1, nextchar = [], optarg = None, first_nonopt = 1, last_nonopt = 1\<rparr>"

fun strchr :: "string \<Rightarrow> char \<Rightarrow> string option" where
  "strchr [] c = None"
| "strchr (d # ds) c = (if d = c then Some (d # ds) else strchr ds c)"

definition NONOPTION_P :: "string \<Rightarrow> bool" where
  "NONOPTION_P a = (case a of d # c # rest \<Rightarrow> d \<noteq> CHR ''-'' | _ \<Rightarrow> True)"

text \<open>
  \<open>exchange\<close> swaps the non-options at \<open>first_nonopt ..< last_nonopt\<close> with the options
  at \<open>last_nonopt ..< optind\<close>, each block keeping its order; the indices are within the
  vector whenever it is called.
\<close>

definition exchange :: "getopt_state \<Rightarrow> getopt_state" where
  "exchange g =
     (let bottom = first_nonopt g; middle = last_nonopt g; top = optind g; xs = args g
      in g\<lparr>args :=
             (if bottom < middle \<and> middle < top \<and> top \<le> length xs
              then take bottom xs @ drop middle (take top xs) @ drop bottom (take middle xs) @
                   drop top xs
              else xs),
           first_nonopt := first_nonopt g + (optind g - last_nonopt g),
           last_nonopt := optind g\<rparr>)"

function skip_nonoptions :: "string list \<Rightarrow> nat \<Rightarrow> nat" where
  "skip_nonoptions xs i =
     (if i < length xs \<and> NONOPTION_P (xs ! i) then skip_nonoptions xs (i + 1) else i)"
  by pat_completeness auto
termination
  by (relation "measure (\<lambda>(xs, i). length xs - i)") auto

declare skip_nonoptions.simps [simp del]

definition getopt_permute :: "getopt_state \<Rightarrow> getopt_state" where
  "getopt_permute g =
     (let g1 = (if first_nonopt g \<noteq> last_nonopt g \<and> last_nonopt g \<noteq> optind g then exchange g
                else if last_nonopt g \<noteq> optind g then g\<lparr>first_nonopt := optind g\<rparr>
                else g);
          g2 = g1\<lparr>optind := skip_nonoptions (args g1) (optind g1)\<rparr>
      in g2\<lparr>last_nonopt := optind g2\<rparr>)"

definition getopt_dashes :: "getopt_state \<Rightarrow> getopt_state" where
  "getopt_dashes g =
     (let g1 = g\<lparr>optind := optind g + 1\<rparr>;
          g2 = (if first_nonopt g1 \<noteq> last_nonopt g1 \<and> last_nonopt g1 \<noteq> optind g1
                then exchange g1
                else if first_nonopt g1 = last_nonopt g1 then g1\<lparr>first_nonopt := optind g1\<rparr>
                else g1)
      in g2\<lparr>last_nonopt := length (args g2), optind := length (args g2)\<rparr>)"

definition getopt_next :: "bool \<Rightarrow> getopt_state \<Rightarrow> getopt_state" where
  "getopt_next pc g =
     (let g1 = g\<lparr>last_nonopt := min (last_nonopt g) (optind g),
                  first_nonopt := min (first_nonopt g) (optind g)\<rparr>;
          g2 = (if pc then g1 else getopt_permute g1)
      in if optind g2 < length (args g2) \<and> args g2 ! optind g2 = ''--''
         then getopt_dashes g2 else g2)"

definition getopt_char ::
  "string \<Rightarrow> char \<Rightarrow> string \<Rightarrow> getopt_state \<Rightarrow> char option \<times> event list \<times> getopt_state" where
  "getopt_char optstring c rest g =
     (let g1 = g\<lparr>nextchar := rest,
                  optind := (if rest = [] then optind g + 1 else optind g)\<rparr>
      in case strchr optstring c of
           None \<Rightarrow> (Some CHR ''?'', [Getopt_error c], g1)
         | Some temp \<Rightarrow>
             if c = CHR '':'' \<or> c = CHR '';'' then (Some CHR ''?'', [Getopt_error c], g1)
             else if take 1 (tl temp) = '':'' then
               (if rest \<noteq> [] then
                  (Some c, [], g1\<lparr>optarg := Some rest, optind := optind g1 + 1, nextchar := []\<rparr>)
                else if length (args g1) \<le> optind g1 then
                  (Some CHR ''?'', [Getopt_error c], g1\<lparr>nextchar := []\<rparr>)
                else
                  (Some c, [],
                   g1\<lparr>optarg := Some (args g1 ! optind g1), optind := optind g1 + 1,
                      nextchar := []\<rparr>))
             else (Some c, [], g1))"

definition getopt ::
  "bool \<Rightarrow> string \<Rightarrow> getopt_state \<Rightarrow> char option \<times> event list \<times> getopt_state" where
  "getopt pc optstring g0 =
     (if args g0 = [] then (None, [], g0)
      else
        (let g = g0\<lparr>optarg := None\<rparr>
         in case nextchar g of
              c # rest \<Rightarrow> getopt_char optstring c rest g
            | [] \<Rightarrow>
                (let g1 = getopt_next pc g
                 in if length (args g1) \<le> optind g1 then
                      (None, [],
                       if first_nonopt g1 \<noteq> last_nonopt g1
                       then g1\<lparr>optind := first_nonopt g1\<rparr> else g1)
                    else if NONOPTION_P (args g1 ! optind g1) then
                      (if pc then (None, [], g1)
                       else (Some (CHR 0x01), [],
                             g1\<lparr>optarg := Some (args g1 ! optind g1),
                                optind := optind g1 + 1\<rparr>))
                    else getopt_char optstring (args g1 ! optind g1 ! 1)
                           (drop 2 (args g1 ! optind g1)) g1)))"

text \<open>What is left to scan; every call that returns an option makes it smaller.\<close>

definition getopt_left :: "getopt_state \<Rightarrow> nat" where
  "getopt_left g =
     (if nextchar g = [] then sum_list (map (\<lambda>a. length a + 1) (drop (optind g) (args g)))
      else length (nextchar g) +
           sum_list (map (\<lambda>a. length a + 1) (drop (optind g + 1) (args g))))"

lemma sum_drop_Suc_le:
  "sum_list (map f (drop (Suc k) xs)) \<le> sum_list (map (f::'a \<Rightarrow> nat) (drop k xs))"
proof (cases "k < length xs")
  case True
  then have "drop k xs = xs ! k # drop (Suc k) xs" by (simp add: Cons_nth_drop_Suc)
  then show ?thesis by simp
next
  case False
  then show ?thesis by simp
qed

lemma sum_drop_mono:
  "i \<le> j \<Longrightarrow> sum_list (map f (drop j xs)) \<le> sum_list (map (f::'a \<Rightarrow> nat) (drop i xs))"
proof (induction j)
  case 0
  then show ?case by simp
next
  case (Suc j)
  show ?case
  proof (cases "i = Suc j")
    case True
    then show ?thesis by simp
  next
    case False
    with Suc.prems have "i \<le> j" by simp
    from Suc.IH [OF this] sum_drop_Suc_le [of f j xs] show ?thesis by simp
  qed
qed

lemma sum_drop_nth:
  "k < length xs \<Longrightarrow>
   sum_list (map f (drop k xs)) = (f::'a \<Rightarrow> nat) (xs ! k) + sum_list (map f (drop (Suc k) xs))"
  by (simp add: Cons_nth_drop_Suc [symmetric])

lemma skip_nonoptions_ge: "i \<le> skip_nonoptions xs i"
proof (induction xs i rule: skip_nonoptions.induct)
  case (1 xs i)
  show ?case
  proof (cases "i < length xs \<and> NONOPTION_P (xs ! i)")
    case True
    from "1.IH" [OF True] have "i + 1 \<le> skip_nonoptions xs (i + 1)" .
    with True show ?thesis by (subst skip_nonoptions.simps) simp
  next
    case False
    then show ?thesis by (subst skip_nonoptions.simps) auto
  qed
qed

lemma drop_rotated:
  assumes "b < m" "m < t" "t \<le> length xs"
  shows "drop t (take b xs @ drop m (take t xs) @ drop b (take m xs) @ drop t xs) = drop t xs"
proof -
  have "length (take b xs @ drop m (take t xs) @ drop b (take m xs)) = t"
    using assms by simp
  then have "drop t ((take b xs @ drop m (take t xs) @ drop b (take m xs)) @ drop t xs) =
      drop t xs"
    by (metis append_eq_conv_conj)
  then show ?thesis by simp
qed

lemma exchange_drop: "drop (optind g) (args (exchange g)) = drop (optind g) (args g)"
proof (cases "first_nonopt g < last_nonopt g \<and> last_nonopt g < optind g \<and>
    optind g \<le> length (args g)")
  case True
  then have "args (exchange g) =
      take (first_nonopt g) (args g) @ drop (last_nonopt g) (take (optind g) (args g)) @
      drop (first_nonopt g) (take (last_nonopt g) (args g)) @ drop (optind g) (args g)"
    by (simp add: exchange_def Let_def)
  with True show ?thesis by (simp only: drop_rotated)
next
  case False
  then have "args (exchange g) = args g" by (auto simp: exchange_def Let_def)
  then show ?thesis by simp
qed

lemma exchange_fields:
  "optind (exchange g) = optind g" "nextchar (exchange g) = nextchar g"
  "optarg (exchange g) = optarg g"
  by (simp_all add: exchange_def Let_def)

lemma getopt_permute_left:
  "sum_list (map f (drop (optind (getopt_permute g)) (args (getopt_permute g)))) \<le>
   sum_list (map (f::string \<Rightarrow> nat) (drop (optind g) (args g)))"
proof -
  define g1 where "g1 =
    (if first_nonopt g \<noteq> last_nonopt g \<and> last_nonopt g \<noteq> optind g then exchange g
     else if last_nonopt g \<noteq> optind g then g\<lparr>first_nonopt := optind g\<rparr> else g)"
  have a: "optind g1 = optind g" and b: "drop (optind g) (args g1) = drop (optind g) (args g)"
    by (simp_all add: g1_def exchange_fields exchange_drop)
  have c: "optind (getopt_permute g) = skip_nonoptions (args g1) (optind g)"
    and d: "args (getopt_permute g) = args g1"
    by (simp_all add: getopt_permute_def Let_def g1_def [symmetric] a)
  let ?k = "skip_nonoptions (args g1) (optind g)"
  have "drop ?k (args g1) = drop (?k - optind g) (drop (optind g) (args g1))"
    using skip_nonoptions_ge [of "optind g" "args g1"] by simp
  also have "\<dots> = drop ?k (args g)"
    using skip_nonoptions_ge [of "optind g" "args g1"] by (simp add: b)
  finally have "drop ?k (args g1) = drop ?k (args g)" .
  with sum_drop_mono [OF skip_nonoptions_ge [of "optind g" "args g1"], of f "args g"] c d
  show ?thesis by simp
qed

lemma getopt_permute_nextchar: "nextchar (getopt_permute g) = nextchar g"
  by (simp add: getopt_permute_def Let_def exchange_fields)

lemma getopt_dashes_fields:
  "optind (getopt_dashes g) = length (args (getopt_dashes g))"
  "nextchar (getopt_dashes g) = nextchar g"
  by (simp_all add: getopt_dashes_def Let_def exchange_fields)

lemma getopt_next_left:
  "sum_list (map f (drop (optind (getopt_next pc g)) (args (getopt_next pc g)))) \<le>
   sum_list (map (f::string \<Rightarrow> nat) (drop (optind g) (args g)))"
proof -
  define g1 where "g1 = g\<lparr>last_nonopt := min (last_nonopt g) (optind g),
                  first_nonopt := min (first_nonopt g) (optind g)\<rparr>"
  define g2 where "g2 = (if pc then g1 else getopt_permute g1)"
  have "sum_list (map f (drop (optind g2) (args g2))) \<le> sum_list (map f (drop (optind g) (args g)))"
    using getopt_permute_left [of f g1] by (simp add: g2_def g1_def)
  moreover have "getopt_next pc g =
      (if optind g2 < length (args g2) \<and> args g2 ! optind g2 = ''--''
       then getopt_dashes g2 else g2)"
    by (simp add: getopt_next_def Let_def g1_def g2_def)
  ultimately show ?thesis by (simp add: getopt_dashes_fields)
qed

lemma getopt_next_nextchar: "nextchar (getopt_next pc g) = nextchar g"
  by (simp add: getopt_next_def Let_def getopt_permute_nextchar getopt_dashes_fields)

lemma getopt_char_left:
  assumes "getopt_char os c rest g = (r, evs, g')"
  shows "getopt_left g' \<le>
         length rest + sum_list (map (\<lambda>a. length a + 1) (drop (optind g + 1) (args g)))"
  using assms sum_drop_Suc_le [of "\<lambda>a. length a + 1" "Suc (optind g)" "args g"]
  by (auto simp: getopt_char_def getopt_left_def Let_def split: option.splits if_splits)

lemma NONOPTION_P_False: "\<not> NONOPTION_P a \<Longrightarrow> \<exists>c rest. a = CHR ''-'' # c # rest"
  by (auto simp: NONOPTION_P_def split: list.splits)

lemma getopt_decreases:
  assumes "getopt pc os g = (Some r, evs, g')"
  shows "getopt_left g' < getopt_left g"
proof (cases "nextchar g")
  case (Cons c rest)
  with assms have "getopt_char os c rest (g\<lparr>optarg := None\<rparr>) = (Some r, evs, g')"
    by (auto simp: getopt_def split: if_splits)
  from getopt_char_left [OF this] Cons show ?thesis
    by (simp add: getopt_left_def)
next
  case Nil
  define g1 where "g1 = getopt_next pc (g\<lparr>optarg := None\<rparr>)"
  have le: "sum_list (map (\<lambda>a. length a + 1) (drop (optind g1) (args g1))) \<le> getopt_left g"
    using getopt_next_left [of "\<lambda>a. length a + 1" pc "g\<lparr>optarg := None\<rparr>"] Nil
    by (simp add: g1_def getopt_left_def)
  from assms Nil have lt: "optind g1 < length (args g1)"
    by (auto simp: getopt_def Let_def g1_def [symmetric] split: if_splits)
  show ?thesis
  proof (cases "NONOPTION_P (args g1 ! optind g1)")
    case True
    with assms Nil lt have "g' = g1\<lparr>optarg := Some (args g1 ! optind g1), optind := optind g1 + 1\<rparr>"
      by (auto simp: getopt_def Let_def g1_def [symmetric] split: if_splits)
    moreover have "nextchar g1 = []"
      using Nil by (simp add: g1_def getopt_next_nextchar)
    ultimately show ?thesis
      using le lt by (simp add: getopt_left_def sum_drop_nth)
  next
    case False
    from NONOPTION_P_False [OF False] obtain c rest
      where arg: "args g1 ! optind g1 = CHR ''-'' # c # rest" by blast
    from assms Nil lt False arg
    have ch: "getopt_char os c rest g1 = (Some r, evs, g')"
      by (auto simp: getopt_def Let_def g1_def [symmetric] split: if_splits)
    from getopt_char_left [OF ch] le lt arg show ?thesis
      by (simp add: sum_drop_nth)
  qed
qed

subsection \<open>usage and ProcessOptions\<close>

text \<open>
  \<^verbatim>\<open>usage\<close> prints to standard error unless the command name is \<^verbatim>\<open>NULL\<close>.
  \<open>arg0\<close> is \<^verbatim>\<open>argV[0]\<close>, which is \<^verbatim>\<open>NULL\<close> when the argument vector is empty.
  \<open>ProcessOptions_case\<close> is the body of the \<^verbatim>\<open>switch\<close>; \<^verbatim>\<open>getopt\<close> returns
  \<^verbatim>\<open>'H'\<close> only with \<^verbatim>\<open>optarg\<close> set, so the \<open>None\<close> branch there is never taken.
  The program reads \<^verbatim>\<open>argV\<close> as \<^verbatim>\<open>getopt\<close> has left it. Both functions are called
  with the address of the global state only, so their \<^verbatim>\<open>NULL\<close> guards always pass.
  \<open>ProcessOptions\<close> returns 0 on every path.
\<close>

definition usage_text :: "string \<Rightarrow> string" where
  "usage_text cmdname =
     ''usage: '' @ cmdname @ '' [-v] [-h] [<filename>]'' @ [NL] @
     '' [-h] : display this help'' @ [NL] @
     '' [-H headers]'' @ [NL] @
     '' [-v] : verbose output'' @ [NL]"

definition usage :: "string option \<Rightarrow> machine \<Rightarrow> machine" where
  "usage cmdname m =
     (case cmdname of None \<Rightarrow> m | Some n \<Rightarrow> emit (Stderr (usage_text n)) m)"

definition options :: string where
  "options = ''hvH:''"

definition arg0 :: "string list \<Rightarrow> string option" where
  "arg0 argV = (case argV of [] \<Rightarrow> None | a # _ \<Rightarrow> Some a)"

definition ProcessOptions_case :: "char \<Rightarrow> getopt_state \<Rightarrow> machine \<Rightarrow> machine" where
  "ProcessOptions_case c g m =
     (if c = CHR ''v'' then m\<lparr>state := (state m)\<lparr>verbose := True\<rparr>\<rparr>
      else if c = CHR ''H'' then
        (case optarg g of
           None \<Rightarrow> m
         | Some s \<Rightarrow>
             (let (a, h) = strdup s (heap m)
              in m\<lparr>state := (state m)\<lparr>headers := Some a\<rparr>, heap := h\<rparr>))
      else if c = CHR ''h'' then usage (arg0 (args g)) m
      else m)"

function ProcessOptions_loop ::
  "bool \<Rightarrow> getopt_state \<Rightarrow> machine \<Rightarrow> getopt_state \<times> machine" where
  "ProcessOptions_loop pc g m =
     (let (c, evs, g') = getopt pc options g;
          m' = m\<lparr>trace := trace m @ evs\<rparr>
      in case c of
           None \<Rightarrow> (g', m')
         | Some x \<Rightarrow> ProcessOptions_loop pc g' (ProcessOptions_case x g' m'))"
  by pat_completeness auto
termination
  by (relation "measure (\<lambda>(pc, g, m). getopt_left g)")
     (auto intro: getopt_decreases getopt_decreases [OF sym])

declare ProcessOptions_loop.simps [simp del]

definition ProcessOptions :: "bool \<Rightarrow> string list \<Rightarrow> machine \<Rightarrow> int \<times> machine" where
  "ProcessOptions pc argV m =
     (let (g, m1) = ProcessOptions_loop pc (getopt_init argV) m;
          m2 = (if optind g < length argV then
                  (let (a, h) = strdup (args g ! optind g) (heap m1)
                   in m1\<lparr>state := (state m1)\<lparr>fileName := Some a\<rparr>, heap := h\<rparr>)
                else m1)
      in (0, m2))"

subsection \<open>SendMessage and main\<close>

text \<open>
  In \<open>SendMessage\<close> the local \<^verbatim>\<open>headers\<close> is either the literal or the very
  pointer stored in the state, so the loop rewrites the buffer the state points to
  (\<open>SendMessage_headers\<close>, the first block of the function). \<open>SendMessage_open\<close> is the
  second block: the size check and \<^verbatim>\<open>open\<close>, or standard input.
\<close>

definition default_headers :: string where
  "default_headers = ''source:iotsend'' @ [NL, NL]"

definition size_warning :: string where
  "size_warning = ''Warning: Max file size exceeded'' @ [NL] @ ''File will be truncated!'' @ [NL]"

definition file_not_found :: string where
  "file_not_found = ''File not found'' @ [NL]"

definition SendMessage_headers :: "machine \<Rightarrow> string \<times> machine" where
  "SendMessage_headers m =
     (case headers (state m) of
        None \<Rightarrow> (default_headers, m)
      | Some a \<Rightarrow>
          (let s = rewrite_headers (read_str (heap m) a)
           in (s, m\<lparr>heap := (heap m)[a := Some s]\<rparr>)))"

definition SendMessage_open :: "env \<Rightarrow> machine \<Rightarrow> int \<times> machine" where
  "SendMessage_open e m =
     (case fileName (state m) of
        None \<Rightarrow> (STDIN_FILENO, m)
      | Some p \<Rightarrow>
          (let path = read_str (heap m) p;
               m1 = emit (Stat path) m;
               m2 = (case sys_stat e path of
                       None \<Rightarrow> m1
                     | Some st_size \<Rightarrow>
                         if st_size > MAX_IOT_MSG_SIZE e
                         then emit (Stderr size_warning) m1 else m1);
               fd = sys_open e path
           in (fd, emit (Open path fd) m2)))"

definition SendMessage :: "env \<Rightarrow> machine \<Rightarrow> int \<times> machine" where
  "SendMessage e m0 =
     (let (hdrs, m1) = SendMessage_headers m0;
          (fd, m2) = SendMessage_open e m1;
          (result, m3) =
            (if fd \<noteq> -1 then
               (client_stream e (hIoTClient (state m2)) hdrs fd,
                emit (IOTCLIENT_Stream (hIoTClient (state m2)) hdrs fd) m2)
             else (EINVAL, emit (Stderr file_not_found) m2));
          m4 = (if fileName (state m3) \<noteq> None \<and> fd \<noteq> -1 then emit (Close fd) m3 else m3)
      in (result, m4))"

definition cleanup :: "machine \<Rightarrow> machine" where
  "cleanup m =
     (let m1 = (case headers (state m) of
                  None \<Rightarrow> m
                | Some a \<Rightarrow> m\<lparr>state := (state m)\<lparr>headers := None\<rparr>, heap := free a (heap m)\<rparr>);
          m2 = (case fileName (state m1) of
                  None \<Rightarrow> m1
                | Some a \<Rightarrow> m1\<lparr>state := (state m1)\<lparr>fileName := None\<rparr>, heap := free a (heap m1)\<rparr>)
      in m2)"

text \<open>
  \<open>main\<close> returns the exit code and the final machine. The value \<open>SendMessage\<close>
  returns is not used.
\<close>

definition main :: "env \<Rightarrow> string list \<Rightarrow> int \<times> machine" where
  "main e argv =
     (let (r0, m1) = ProcessOptions (posixly_correct e) argv machine_init;
          m2 = emit IOTCLIENT_Create m1;
          m3 = m2\<lparr>state := (state m2)\<lparr>hIoTClient := client_create e\<rparr>\<rparr>;
          (result, m7) =
            (if hIoTClient (state m3) \<noteq> None then
               (let m4 = emit (IOTCLIENT_SetVerbose (verbose (state m3))) m3;
                    (r1, m5) = SendMessage e m4;
                    m6 = emit IOTCLIENT_Close m5
                in (EOK e, m6))
             else (EINVAL, m3))
      in (result, cleanup m7))"

text \<open>
  Three points of a run, for the properties below: \<open>parsed\<close> is the machine when
  \<open>ProcessOptions\<close> has returned, \<open>created\<close> the machine when the handle has been
  stored, \<open>sent\<close> what the call of \<open>SendMessage\<close> returns.
\<close>

definition parsed :: "env \<Rightarrow> string list \<Rightarrow> machine" where
  "parsed e argv = snd (ProcessOptions (posixly_correct e) argv machine_init)"

definition created :: "env \<Rightarrow> string list \<Rightarrow> machine" where
  "created e argv =
     (let m = emit IOTCLIENT_Create (parsed e argv)
      in m\<lparr>state := (state m)\<lparr>hIoTClient := client_create e\<rparr>\<rparr>)"

definition sent :: "env \<Rightarrow> string list \<Rightarrow> int \<times> machine" where
  "sent e argv =
     SendMessage e (emit (IOTCLIENT_SetVerbose (verbose (state (created e argv)))) (created e argv))"

subsection \<open>What a command line supplies\<close>

text \<open>
  The vocabulary of the properties below. \<open>calls pc g\<close> lists what the successive
  calls of \<^verbatim>\<open>getopt\<close> in the loop of \<open>ProcessOptions\<close> return, the last one being the
  call that returns \<open>-1\<close>; \<open>call_step\<close> is one turn of the loop on such a result. The
  command line supplies option \<open>c\<close> when some call returns it (\<open>returns\<close>), and its
  positional file argument is the argument \<^verbatim>\<open>optind\<close> is left at (\<open>positional\<close>).
  All of them depend on the world through \<^verbatim>\<open>POSIXLY_CORRECT\<close> only.
\<close>

lemma getopt_decreases_fst:
  "fst (getopt pc os g) = Some r \<Longrightarrow> getopt_left (snd (snd (getopt pc os g))) < getopt_left g"
  by (rule getopt_decreases [of pc os g r "fst (snd (getopt pc os g))"]) (simp add: prod_eq_iff)

function calls ::
  "bool \<Rightarrow> getopt_state \<Rightarrow> (char option \<times> event list \<times> getopt_state) list" where
  "calls pc g =
     (let r = getopt pc options g
      in case fst r of
           None \<Rightarrow> [r]
         | Some x \<Rightarrow> r # calls pc (snd (snd r)))"
  by pat_completeness auto
termination
  by (relation "measure (\<lambda>(pc, g). getopt_left g)")
     (auto intro: getopt_decreases_fst [OF sym])

declare calls.simps [simp del]

definition call_step ::
  "machine \<Rightarrow> char option \<times> event list \<times> getopt_state \<Rightarrow> machine" where
  "call_step m r =
     (let (c, evs, g') = r;
          m' = m\<lparr>trace := trace m @ evs\<rparr>
      in case c of None \<Rightarrow> m' | Some x \<Rightarrow> ProcessOptions_case x g' m')"

definition getopt_end :: "env \<Rightarrow> string list \<Rightarrow> getopt_state" where
  "getopt_end e argv = snd (snd (last (calls (posixly_correct e) (getopt_init argv))))"

definition positional :: "env \<Rightarrow> string list \<Rightarrow> string option" where
  "positional e argv =
     (if optind (getopt_end e argv) < length argv
      then Some (args (getopt_end e argv) ! optind (getopt_end e argv))
      else None)"

definition returns :: "env \<Rightarrow> string list \<Rightarrow> char \<Rightarrow> bool" where
  "returns e argv c = (Some c \<in> fst ` set (calls (posixly_correct e) (getopt_init argv)))"

text \<open>
  \<open>header_args\<close> lists the arguments of the \<^verbatim>\<open>-H\<close> options in the order
  \<^verbatim>\<open>getopt\<close> returns them, \<open>usage_out\<close> is what one call of \<open>usage\<close> prints,
  \<open>call_events\<close> what one turn of the loop adds to the trace.
\<close>

fun H_arg :: "char option \<times> event list \<times> getopt_state \<Rightarrow> string list" where
  "H_arg (c, evs, g) =
     (if c = Some CHR ''H'' then (case optarg g of None \<Rightarrow> [] | Some s \<Rightarrow> [s]) else [])"

definition header_args :: "env \<Rightarrow> string list \<Rightarrow> string list" where
  "header_args e argv = concat (map H_arg (calls (posixly_correct e) (getopt_init argv)))"

definition usage_out :: "string list \<Rightarrow> event list" where
  "usage_out argV = (case arg0 argV of None \<Rightarrow> [] | Some a \<Rightarrow> [Stderr (usage_text a)])"

fun call_events :: "char option \<times> event list \<times> getopt_state \<Rightarrow> event list" where
  "call_events (c, evs, g) = evs @ (if c = Some CHR ''h'' then usage_out (args g) else [])"

text \<open>
  \<open>header_text\<close> is the header text of a run: the default, or the last \<^verbatim>\<open>-H\<close>
  argument rewritten. \<open>size_check\<close> is what the size check of a path prints.
\<close>

definition header_text :: "env \<Rightarrow> string list \<Rightarrow> string" where
  "header_text e argv =
     (if header_args e argv = [] then default_headers
      else rewrite_headers (last (header_args e argv)))"

definition size_check :: "env \<Rightarrow> string \<Rightarrow> event list" where
  "size_check e p =
     (case sys_stat e p of
        None \<Rightarrow> []
      | Some st_size \<Rightarrow> if st_size > MAX_IOT_MSG_SIZE e then [Stderr size_warning] else [])"

text \<open>
  What holds of the scanner's state all along a scan of \<open>argv\<close>: the vector is \<open>argv\<close>
  reordered, its first element stays in place, and the indices never go below 1.
\<close>

definition getopt_inv :: "string list \<Rightarrow> getopt_state \<Rightarrow> bool" where
  "getopt_inv argv g =
     (set (args g) = set argv \<and> length (args g) = length argv \<and> arg0 (args g) = arg0 argv \<and>
      1 \<le> first_nonopt g \<and> 1 \<le> optind g)"

subsection \<open>Sample worlds\<close>

text \<open>
  Worlds for the sample runs. In \<open>env_ok\<close> the client is created, the stream call
  fails with code 5, \<^verbatim>\<open>f\<close> is the only file: 100 bytes, over a limit of 10, opened as
  descriptor 3, and \<^verbatim>\<open>POSIXLY_CORRECT\<close> is not set. In \<open>env_down\<close> the client cannot
  be created. In \<open>env_locked\<close> the file \<^verbatim>\<open>f\<close> is there but cannot be opened. In
  \<open>env_posix\<close> \<^verbatim>\<open>POSIXLY_CORRECT\<close> is set.
\<close>

definition env_ok :: env where
  "env_ok =
     \<lparr>client_create = Some 1, client_stream = (\<lambda>h t fd. 5),
      sys_stat = (\<lambda>p. if p = ''f'' then Some 100 else None),
      sys_open = (\<lambda>p. if p = ''f'' then 3 else -1),
      EOK = 0, MAX_IOT_MSG_SIZE = 10, posixly_correct = False\<rparr>"

definition env_down :: env where
  "env_down = env_ok\<lparr>client_create := None\<rparr>"

definition env_locked :: env where
  "env_locked = env_ok\<lparr>sys_open := (\<lambda>p. -1)\<rparr>"

definition env_posix :: env where
  "env_posix = env_ok\<lparr>posixly_correct := True\<rparr>"

subsection \<open>The header rewrite, characterised\<close>

lemma length_rewrite_from: "length (rewrite_from i hs) = length hs"
proof (induction i hs rule: rewrite_from.induct)
  case (1 i hs)
  show ?case
  proof (cases "i < length hs")
    case True
    with "1.IH" show ?thesis by (subst rewrite_from.simps) simp
  next
    case False
    then show ?thesis by (subst rewrite_from.simps) simp
  qed
qed

lemma nth_rewrite_from:
  "k < length hs \<Longrightarrow>
   rewrite_from i hs ! k = (if i \<le> k \<and> hs ! k = CHR '';'' then NL else hs ! k)"
proof (induction i hs rule: rewrite_from.induct)
  case (1 i hs)
  show ?case
  proof (cases "i < length hs")
    case True
    let ?hs' = "if hs ! i = CHR '';'' then hs[i := NL] else hs"
    have len: "k < length ?hs'" using "1.prems" by simp
    have step: "rewrite_from i hs = rewrite_from (i + 1) ?hs'"
      using True by (subst rewrite_from.simps) simp
    have "rewrite_from (i + 1) ?hs' ! k =
            (if i + 1 \<le> k \<and> ?hs' ! k = CHR '';'' then NL else ?hs' ! k)"
      using "1.IH" [OF True len] .
    also have "\<dots> = (if i \<le> k \<and> hs ! k = CHR '';'' then NL else hs ! k)"
      using True "1.prems" by (cases "k = i") (auto simp: nth_list_update)
    finally show ?thesis using step by simp
  next
    case False
    with "1.prems" show ?thesis by (subst rewrite_from.simps) simp
  qed
qed

lemma rewrite_headers_map:
  "rewrite_headers hs = map (\<lambda>c. if c = CHR '';'' then NL else c) hs"
  by (rule nth_equalityI) (simp_all add: rewrite_headers_def length_rewrite_from nth_rewrite_from)

subsection \<open>The option loop as a fold over the calls of getopt\<close>

lemma calls_not_Nil: "calls pc g \<noteq> []"
  by (subst calls.simps) (simp add: Let_def split: option.splits)

lemma ProcessOptions_loop_fold:
  "ProcessOptions_loop pc g m =
     (snd (snd (last (calls pc g))), foldl call_step m (calls pc g))"
proof (induction pc g m rule: ProcessOptions_loop.induct)
  case (1 pc g m)
  obtain c evs g' where r: "getopt pc options g = (c, evs, g')"
    by (cases "getopt pc options g") auto
  show ?case
  proof (cases c)
    case None
    with r show ?thesis
      by (subst ProcessOptions_loop.simps, subst (1 2) calls.simps)
         (simp add: call_step_def)
  next
    case (Some x)
    have "ProcessOptions_loop pc g m =
            ProcessOptions_loop pc g' (ProcessOptions_case x g' (m\<lparr>trace := trace m @ evs\<rparr>))"
      using r Some by (subst ProcessOptions_loop.simps) simp
    also have "\<dots> = (snd (snd (last (calls pc g'))),
                     foldl call_step (ProcessOptions_case x g' (m\<lparr>trace := trace m @ evs\<rparr>))
                       (calls pc g'))"
      using "1.IH" [OF r [symmetric] refl refl refl Some] .
    also have "\<dots> = (snd (snd (last (calls pc g))), foldl call_step m (calls pc g))"
      using r Some calls_not_Nil [of pc g']
      by (subst (3 4) calls.simps) (simp add: call_step_def)
    finally show ?thesis .
  qed
qed

subsection \<open>The machine when ProcessOptions has returned\<close>

lemma call_step_heap: "heap (call_step m r) = heap m @ map Some (H_arg r)"
  by (cases r)
     (auto simp: Let_def call_step_def ProcessOptions_case_def usage_def emit_def strdup_def
        split: option.splits)

lemma call_step_trace: "trace (call_step m r) = trace m @ call_events r"
  by (cases r)
     (auto simp: Let_def call_step_def ProcessOptions_case_def usage_def usage_out_def emit_def
        strdup_def split: option.splits)

lemma call_step_headers:
  "headers (state (call_step m r)) =
     (if H_arg r = [] then headers (state m) else Some (length (heap m)))"
  by (cases r)
     (auto simp: Let_def call_step_def ProcessOptions_case_def usage_def emit_def strdup_def
        split: option.splits)

lemma call_step_fileName: "fileName (state (call_step m r)) = fileName (state m)"
  by (cases r)
     (auto simp: Let_def call_step_def ProcessOptions_case_def usage_def emit_def strdup_def
        split: option.splits)

lemma call_step_hIoTClient: "hIoTClient (state (call_step m r)) = hIoTClient (state m)"
  by (cases r)
     (auto simp: Let_def call_step_def ProcessOptions_case_def usage_def emit_def strdup_def
        split: option.splits)

lemma call_step_verbose:
  "verbose (state (call_step m r)) = (verbose (state m) \<or> fst r = Some CHR ''v'')"
  by (cases r)
     (auto simp: Let_def call_step_def ProcessOptions_case_def usage_def emit_def strdup_def
        split: option.splits)

lemma fold_heap:
  "heap (foldl call_step m cs) = heap m @ map Some (concat (map H_arg cs))"
  by (induction cs arbitrary: m) (simp_all add: call_step_heap)

lemma fold_trace:
  "trace (foldl call_step m cs) = trace m @ concat (map call_events cs)"
  by (induction cs arbitrary: m) (simp_all add: call_step_trace)

lemma fold_fileName: "fileName (state (foldl call_step m cs)) = fileName (state m)"
  by (induction cs arbitrary: m) (simp_all add: call_step_fileName)

lemma fold_hIoTClient: "hIoTClient (state (foldl call_step m cs)) = hIoTClient (state m)"
  by (induction cs arbitrary: m) (simp_all add: call_step_hIoTClient)

lemma fold_verbose:
  "verbose (state (foldl call_step m cs)) =
     (verbose (state m) \<or> Some CHR ''v'' \<in> fst ` set cs)"
  by (induction cs arbitrary: m) (auto simp: call_step_verbose)

lemma H_arg_length: "H_arg r \<noteq> [] \<Longrightarrow> length (H_arg r) = Suc 0"
  by (cases r) (auto split: option.splits if_splits)

lemma fold_headers:
  "headers (state (foldl call_step m cs)) =
     (if concat (map H_arg cs) = [] then headers (state m)
      else Some (length (heap m) + length (concat (map H_arg cs)) - 1))"
proof (induction cs arbitrary: m)
  case Nil
  show ?case by simp
next
  case (Cons r cs)
  show ?case
  proof (cases "H_arg r = []")
    case True
    then show ?thesis by (simp add: Cons.IH call_step_headers call_step_heap)
  next
    case False
    from H_arg_length [OF this] False show ?thesis
      by (cases "concat (map H_arg cs) = []")
         (simp_all add: Cons.IH call_step_headers call_step_heap)
  qed
qed

lemma parsed_unfold:
  "parsed e argv =
     (let m1 = foldl call_step machine_init (calls (posixly_correct e) (getopt_init argv))
      in case positional e argv of
           None \<Rightarrow> m1
         | Some p \<Rightarrow> m1\<lparr>state := (state m1)\<lparr>fileName := Some (length (heap m1))\<rparr>,
                          heap := heap m1 @ [Some p]\<rparr>)"
  by (simp add: parsed_def ProcessOptions_def ProcessOptions_loop_fold positional_def
        getopt_end_def strdup_def Let_def)

lemma parsed_heap:
  "heap (parsed e argv) =
     map Some (header_args e argv) @
     (case positional e argv of None \<Rightarrow> [] | Some p \<Rightarrow> [Some p])"
  by (simp add: Let_def parsed_unfold fold_heap header_args_def machine_init_def
        split: option.splits)

lemma parsed_trace:
  "trace (parsed e argv) =
     concat (map call_events (calls (posixly_correct e) (getopt_init argv)))"
  by (simp add: Let_def parsed_unfold fold_trace machine_init_def split: option.splits)

lemma parsed_headers:
  "headers (state (parsed e argv)) =
     (if header_args e argv = [] then None else Some (length (header_args e argv) - 1))"
  by (simp add: Let_def parsed_unfold fold_headers header_args_def machine_init_def
        split: option.splits)

lemma parsed_fileName:
  "fileName (state (parsed e argv)) =
     (case positional e argv of None \<Rightarrow> None | Some p \<Rightarrow> Some (length (header_args e argv)))"
  by (simp add: Let_def parsed_unfold fold_fileName fold_heap header_args_def machine_init_def
        split: option.splits)

lemma parsed_hIoTClient: "hIoTClient (state (parsed e argv)) = None"
  by (simp add: Let_def parsed_unfold fold_hIoTClient machine_init_def split: option.splits)

lemma parsed_verbose: "verbose (state (parsed e argv)) = returns e argv CHR ''v''"
  by (simp add: Let_def parsed_unfold fold_verbose returns_def machine_init_def
        split: option.splits)

subsection \<open>What the calls of getopt return\<close>

lemma getopt_char_events:
  "getopt_char os c rest g = (r, evs, g') \<Longrightarrow> ev \<in> set evs \<Longrightarrow> \<exists>x. ev = Getopt_error x"
  by (auto simp: getopt_char_def Let_def split: option.splits if_splits)

lemma getopt_events:
  "getopt pc os g = (r, evs, g') \<Longrightarrow> ev \<in> set evs \<Longrightarrow> \<exists>x. ev = Getopt_error x"
  by (auto simp: getopt_def Let_def split: list.splits if_splits dest: getopt_char_events)

lemma rotated_parts:
  assumes "b \<le> m" "m \<le> t"
  shows "xs = take b xs @ drop b (take m xs) @ drop m (take t xs) @ drop t xs"
proof -
  have "take m xs = take b (take m xs) @ drop b (take m xs)"
    by (rule append_take_drop_id [symmetric])
  with assms have a: "take m xs = take b xs @ drop b (take m xs)" by (simp add: min_absorb1)
  have "take t xs = take m (take t xs) @ drop m (take t xs)"
    by (rule append_take_drop_id [symmetric])
  with assms have b: "take t xs = take m xs @ drop m (take t xs)" by (simp add: min_absorb1)
  have "xs = take t xs @ drop t xs" by simp
  with a b show ?thesis by (metis append.assoc)
qed

lemma set_rotated:
  assumes "b < m" "m < t"
  shows "set (take b xs @ drop m (take t xs) @ drop b (take m xs) @ drop t xs) = set xs"
proof -
  have "set xs = set (take b xs @ drop b (take m xs) @ drop m (take t xs) @ drop t xs)"
    using rotated_parts [of b m t xs] assms by simp
  then show ?thesis by auto
qed

lemma arg0_rotated:
  assumes "1 \<le> b" "b < length xs"
  shows "arg0 (take b xs @ ys) = arg0 xs"
proof -
  from assms obtain a as where "xs = a # as" by (cases xs) auto
  moreover from assms obtain k where "b = Suc k" by (cases b) auto
  ultimately show ?thesis by (simp add: arg0_def)
qed

lemma exchange_set [simp]: "set (args (exchange g)) = set (args g)"
proof (cases "first_nonopt g < last_nonopt g \<and> last_nonopt g < optind g \<and>
    optind g \<le> length (args g)")
  case True
  then have "args (exchange g) =
      take (first_nonopt g) (args g) @ drop (last_nonopt g) (take (optind g) (args g)) @
      drop (first_nonopt g) (take (last_nonopt g) (args g)) @ drop (optind g) (args g)"
    by (simp add: exchange_def Let_def)
  with True show ?thesis by (simp only: set_rotated)
next
  case False
  then have "args (exchange g) = args g" by (auto simp: exchange_def Let_def)
  then show ?thesis by simp
qed

lemma exchange_length [simp]: "length (args (exchange g)) = length (args g)"
  by (simp add: exchange_def Let_def)

lemma exchange_arg0 [simp]: "1 \<le> first_nonopt g \<Longrightarrow> arg0 (args (exchange g)) = arg0 (args g)"
proof (cases "first_nonopt g < last_nonopt g \<and> last_nonopt g < optind g \<and>
    optind g \<le> length (args g)")
  case True
  assume "1 \<le> first_nonopt g"
  moreover from True have "first_nonopt g < length (args g)" by simp
  moreover from True have "args (exchange g) =
      take (first_nonopt g) (args g) @ drop (last_nonopt g) (take (optind g) (args g)) @
      drop (first_nonopt g) (take (last_nonopt g) (args g)) @ drop (optind g) (args g)"
    by (simp add: exchange_def Let_def)
  ultimately show ?thesis by (simp only: arg0_rotated)
next
  case False
  then have "args (exchange g) = args g" by (auto simp: exchange_def Let_def)
  then show ?thesis by simp
qed

lemma exchange_first [simp]:
  "first_nonopt (exchange g) = first_nonopt g + (optind g - last_nonopt g)"
  "last_nonopt (exchange g) = optind g"
  by (simp_all add: exchange_def Let_def)

lemma exchange_inv: "getopt_inv argv g \<Longrightarrow> getopt_inv argv (exchange g)"
  by (simp add: getopt_inv_def exchange_fields)

lemma inv_optind: "getopt_inv argv g \<Longrightarrow> 1 \<le> k \<Longrightarrow> getopt_inv argv (g\<lparr>optind := k\<rparr>)"
  by (simp add: getopt_inv_def)

lemma inv_first_nonopt:
  "getopt_inv argv g \<Longrightarrow> 1 \<le> k \<Longrightarrow> getopt_inv argv (g\<lparr>first_nonopt := k\<rparr>)"
  by (simp add: getopt_inv_def)

lemma inv_last_nonopt: "getopt_inv argv g \<Longrightarrow> getopt_inv argv (g\<lparr>last_nonopt := k\<rparr>)"
  by (simp add: getopt_inv_def)

lemma inv_optarg: "getopt_inv argv g \<Longrightarrow> getopt_inv argv (g\<lparr>optarg := x\<rparr>)"
  by (simp add: getopt_inv_def)

lemma inv_optind_ge: "getopt_inv argv g \<Longrightarrow> 1 \<le> optind g"
  by (simp add: getopt_inv_def)

lemma inv_first_ge: "getopt_inv argv g \<Longrightarrow> 1 \<le> first_nonopt g"
  by (simp add: getopt_inv_def)

lemma getopt_permute_inv:
  assumes i: "getopt_inv argv g"
  shows "getopt_inv argv (getopt_permute g)"
proof -
  define g1 where "g1 =
    (if first_nonopt g \<noteq> last_nonopt g \<and> last_nonopt g \<noteq> optind g then exchange g
     else if last_nonopt g \<noteq> optind g then g\<lparr>first_nonopt := optind g\<rparr> else g)"
  have i1: "getopt_inv argv g1"
    unfolding g1_def using i exchange_inv [OF i] inv_first_nonopt [OF i inv_optind_ge [OF i]]
    by (simp only: if_split) blast
  have e: "getopt_permute g =
      g1\<lparr>optind := skip_nonoptions (args g1) (optind g1),
         last_nonopt := skip_nonoptions (args g1) (optind g1)\<rparr>"
    by (simp add: getopt_permute_def Let_def g1_def [symmetric])
  from inv_optind_ge [OF i1] skip_nonoptions_ge [of "optind g1" "args g1"]
  have "1 \<le> skip_nonoptions (args g1) (optind g1)" by simp
  from inv_last_nonopt [OF inv_optind [OF i1 this]] show ?thesis by (simp only: e)
qed

lemma getopt_dashes_inv:
  assumes i: "getopt_inv argv g" and n: "args g \<noteq> []"
  shows "getopt_inv argv (getopt_dashes g)"
proof -
  define g1 where "g1 = g\<lparr>optind := optind g + 1\<rparr>"
  define g2 where "g2 =
    (if first_nonopt g1 \<noteq> last_nonopt g1 \<and> last_nonopt g1 \<noteq> optind g1 then exchange g1
     else if first_nonopt g1 = last_nonopt g1 then g1\<lparr>first_nonopt := optind g1\<rparr> else g1)"
  have i1: "getopt_inv argv g1"
    unfolding g1_def by (rule inv_optind [OF i]) simp
  have i2: "getopt_inv argv g2"
    unfolding g2_def
    using i1 exchange_inv [OF i1] inv_first_nonopt [OF i1 inv_optind_ge [OF i1]]
    by (simp only: if_split) blast
  have e: "getopt_dashes g = g2\<lparr>last_nonopt := length (args g2), optind := length (args g2)\<rparr>"
    by (simp only: getopt_dashes_def Let_def g1_def g2_def)
  from i n have "length (args g) = length argv" "args g \<noteq> []" by (simp_all add: getopt_inv_def)
  moreover from i2 have "length (args g2) = length argv" by (simp add: getopt_inv_def)
  ultimately have "1 \<le> length (args g2)" by (cases "args g") simp_all
  from inv_optind [OF inv_last_nonopt [OF i2] this] show ?thesis by (simp only: e)
qed

lemma getopt_next_inv:
  assumes i: "getopt_inv argv g"
  shows "getopt_inv argv (getopt_next pc g)"
proof -
  define g1 where "g1 = g\<lparr>last_nonopt := min (last_nonopt g) (optind g),
                  first_nonopt := min (first_nonopt g) (optind g)\<rparr>"
  define g2 where "g2 = (if pc then g1 else getopt_permute g1)"
  from i have i1: "getopt_inv argv g1" by (simp add: g1_def getopt_inv_def)
  have i2: "getopt_inv argv g2"
    using i1 getopt_permute_inv [OF i1] by (simp add: g2_def)
  have e: "getopt_next pc g =
      (if optind g2 < length (args g2) \<and> args g2 ! optind g2 = ''--''
       then getopt_dashes g2 else g2)"
    by (simp add: getopt_next_def Let_def g1_def g2_def)
  show ?thesis
  proof (cases "optind g2 < length (args g2) \<and> args g2 ! optind g2 = ''--''")
    case True
    then have "args g2 \<noteq> []" by auto
    moreover from True
    have "(optind g2 < length (args g2) \<and> args g2 ! optind g2 = ''--'') = True"
      by (simp only: simp_thms)
    then have "getopt_next pc g = getopt_dashes g2" by (simp only: e if_True)
    ultimately show ?thesis using getopt_dashes_inv [OF i2] by simp
  next
    case False
    then have "(optind g2 < length (args g2) \<and> args g2 ! optind g2 = ''--'') = False"
      by (simp only: simp_thms)
    then have "getopt_next pc g = g2" by (simp only: e if_False)
    with i2 show ?thesis by (simp only:)
  qed
qed

lemma getopt_char_args: "getopt_char os c rest g = (r, evs, g') \<Longrightarrow> args g' = args g"
  by (auto simp: getopt_char_def Let_def split: option.splits if_splits)

lemma getopt_char_first: "getopt_char os c rest g = (r, evs, g') \<Longrightarrow> first_nonopt g' = first_nonopt g"
  by (auto simp: getopt_char_def Let_def split: option.splits if_splits)

lemma getopt_char_optind: "getopt_char os c rest g = (r, evs, g') \<Longrightarrow> optind g \<le> optind g'"
  by (auto simp: getopt_char_def Let_def split: option.splits if_splits)

lemma getopt_char_inv:
  assumes "getopt_inv argv g" "getopt_char os c rest g = (r, evs, g')"
  shows "getopt_inv argv g'"
  using assms(1) getopt_char_args [OF assms(2)] getopt_char_first [OF assms(2)]
    getopt_char_optind [OF assms(2)]
  by (simp add: getopt_inv_def)

lemma getopt_Nil:
  "args g \<noteq> [] \<Longrightarrow> nextchar g = [] \<Longrightarrow> g1 = getopt_next pc (g\<lparr>optarg := None\<rparr>) \<Longrightarrow>
   getopt pc os g =
     (if length (args g1) \<le> optind g1 then
        (None, [], if first_nonopt g1 \<noteq> last_nonopt g1 then g1\<lparr>optind := first_nonopt g1\<rparr> else g1)
      else if NONOPTION_P (args g1 ! optind g1) then
        (if pc then (None, [], g1)
         else (Some (CHR 0x01), [],
               g1\<lparr>optarg := Some (args g1 ! optind g1), optind := optind g1 + 1\<rparr>))
      else getopt_char os (args g1 ! optind g1 ! 1) (drop 2 (args g1 ! optind g1)) g1)"
  by (simp add: getopt_def Let_def)

lemma getopt_Cons:
  "args g \<noteq> [] \<Longrightarrow> nextchar g = c # rest \<Longrightarrow>
   getopt pc os g = getopt_char os c rest (g\<lparr>optarg := None\<rparr>)"
  by (simp add: getopt_def)

lemma getopt_empty: "args g = [] \<Longrightarrow> getopt pc os g = (None, [], g)"
  by (simp add: getopt_def)

lemma getopt_inv_step:
  assumes i: "getopt_inv argv g" and s: "getopt pc os g = (r, evs, g')"
  shows "getopt_inv argv g'"
proof (cases "args g = []")
  case True
  with s i show ?thesis by (simp add: getopt_empty)
next
  case False
  note i0 = inv_optarg [OF i, of None]
  show ?thesis
  proof (cases "nextchar g")
    case (Cons c rest)
    with s False have "getopt_char os c rest (g\<lparr>optarg := None\<rparr>) = (r, evs, g')"
      by (simp add: getopt_Cons)
    from getopt_char_inv [OF i0 this] show ?thesis .
  next
    case Nil
    define g1 where "g1 = getopt_next pc (g\<lparr>optarg := None\<rparr>)"
    have i1: "getopt_inv argv g1" unfolding g1_def by (rule getopt_next_inv [OF i0])
    note e = getopt_Nil [OF False Nil g1_def, of os]
    show ?thesis
    proof (cases "length (args g1) \<le> optind g1")
      case True
      with s e have "g' = (if first_nonopt g1 \<noteq> last_nonopt g1
          then g1\<lparr>optind := first_nonopt g1\<rparr> else g1)" by simp
      with i1 inv_optind [OF i1 inv_first_ge [OF i1]] show ?thesis by simp
    next
      case out: False
      show ?thesis
      proof (cases "NONOPTION_P (args g1 ! optind g1)")
        case True
        with s e out have "g' = g1 \<or>
            g' = g1\<lparr>optarg := Some (args g1 ! optind g1), optind := optind g1 + 1\<rparr>"
          by (cases pc) simp_all
        moreover have "getopt_inv argv
            (g1\<lparr>optarg := Some (args g1 ! optind g1), optind := optind g1 + 1\<rparr>)"
          by (rule inv_optind [OF inv_optarg [OF i1]]) simp
        ultimately show ?thesis using i1 by auto
      next
        case False
        with s e out
        have "getopt_char os (args g1 ! optind g1 ! 1) (drop 2 (args g1 ! optind g1)) g1 =
            (r, evs, g')" by simp
        from getopt_char_inv [OF i1 this] show ?thesis .
      qed
    qed
  qed
qed

lemma getopt_inv_init: "getopt_inv argv (getopt_init argv)"
  by (simp add: getopt_inv_def getopt_init_def)

lemma getopt_permute_optarg: "optarg (getopt_permute g) = optarg g"
  by (simp add: getopt_permute_def Let_def exchange_fields)

lemma getopt_dashes_optarg: "optarg (getopt_dashes g) = optarg g"
  by (simp add: getopt_dashes_def Let_def exchange_fields)

lemma getopt_next_optarg: "optarg (getopt_next pc g) = optarg g"
  by (simp add: getopt_next_def Let_def getopt_permute_optarg getopt_dashes_optarg)

lemma getopt_char_optarg:
  "getopt_char os c rest g = (r, evs, g') \<Longrightarrow> optarg g = None \<Longrightarrow> optarg g' = Some s \<Longrightarrow>
   s \<noteq> [] \<or> s \<in> set (args g')"
  by (auto simp: getopt_char_def Let_def not_le split: option.splits if_splits)
     (metis nth_mem)

lemma getopt_optarg:
  assumes s: "getopt pc os g = (Some r, evs, g')" and o: "optarg g' = Some x"
  shows "x \<noteq> [] \<or> x \<in> set (args g')"
proof (cases "args g = []")
  case True
  with s o show ?thesis by (simp add: getopt_empty)
next
  case False
  show ?thesis
  proof (cases "nextchar g")
    case (Cons c rest)
    with s False have "getopt_char os c rest (g\<lparr>optarg := None\<rparr>) = (Some r, evs, g')"
      by (simp add: getopt_Cons)
    from getopt_char_optarg [OF this _ o] show ?thesis by simp
  next
    case Nil
    define g1 where "g1 = getopt_next pc (g\<lparr>optarg := None\<rparr>)"
    have n: "optarg g1 = None" by (simp add: g1_def getopt_next_optarg)
    note e = getopt_Nil [OF False Nil g1_def, of os]
    show ?thesis
    proof (cases "length (args g1) \<le> optind g1")
      case True
      with s e show ?thesis by simp
    next
      case out: False
      show ?thesis
      proof (cases "NONOPTION_P (args g1 ! optind g1)")
        case True
        with s e out have "g' = g1 \<or>
            g' = g1\<lparr>optarg := Some (args g1 ! optind g1), optind := optind g1 + 1\<rparr>"
          by (cases pc) simp_all
        moreover from out have "args g1 ! optind g1 \<in> set (args g1)" by simp
        ultimately show ?thesis using n o by auto
      next
        case False
        with s e out
        have "getopt_char os (args g1 ! optind g1 ! 1) (drop 2 (args g1 ! optind g1)) g1 =
            (Some r, evs, g')" by simp
        from getopt_char_optarg [OF this n o] show ?thesis .
      qed
    qed
  qed
qed

lemma calls_reach:
  assumes "getopt_inv argv g" "r \<in> set (calls pc g)"
  shows "\<exists>g0. getopt_inv argv g0 \<and> r = getopt pc options g0"
  using assms
proof (induction pc g rule: calls.induct)
  case (1 pc g)
  show ?case
  proof (cases "fst (getopt pc options g)")
    case None
    with "1.prems" show ?thesis by (subst (asm) calls.simps) (auto simp: Let_def)
  next
    case (Some x)
    with "1.prems" have "r = getopt pc options g \<or>
        r \<in> set (calls pc (snd (snd (getopt pc options g))))"
      by (subst (asm) calls.simps) (auto simp: Let_def)
    moreover have "getopt_inv argv (snd (snd (getopt pc options g)))"
      by (rule getopt_inv_step [OF "1.prems"(1), of pc options "fst (getopt pc options g)"
            "fst (snd (getopt pc options g))"]) simp
    ultimately show ?thesis using "1.IH" [OF refl Some] "1.prems"(1) by blast
  qed
qed

lemma calls_inv:
  assumes "getopt_inv argv g" "r \<in> set (calls pc g)"
  shows "getopt_inv argv (snd (snd r))"
proof -
  from calls_reach [OF assms] obtain g0 where i: "getopt_inv argv g0"
    and r: "r = getopt pc options g0" by blast
  show ?thesis
    by (rule getopt_inv_step [OF i, of pc options "fst r" "fst (snd r)"]) (simp add: r)
qed

lemma calls_events:
  assumes "r \<in> set (calls pc g)" "ev \<in> set (fst (snd r))"
  shows "\<exists>x. ev = Getopt_error x"
proof -
  have "\<exists>g0. r = getopt pc options g0"
    using assms(1)
  proof (induction pc g rule: calls.induct)
    case (1 pc g)
    show ?case
    proof (cases "fst (getopt pc options g)")
      case None
      with "1.prems" show ?thesis by (subst (asm) calls.simps) (auto simp: Let_def)
    next
      case (Some x)
      with "1.prems" have "r = getopt pc options g \<or>
          r \<in> set (calls pc (snd (snd (getopt pc options g))))"
        by (subst (asm) calls.simps) (auto simp: Let_def)
      with "1.IH" [OF refl Some] show ?thesis by blast
    qed
  qed
  then obtain g0 where "getopt pc options g0 = (fst r, fst (snd r), snd (snd r))" by auto
  from getopt_events [OF this assms(2)] show ?thesis .
qed

lemma call_events_cases:
  assumes "r \<in> set (calls pc g)" "ev \<in> set (call_events r)"
  shows "(\<exists>x. ev = Getopt_error x) \<or>
         (fst r = Some CHR ''h'' \<and> ev \<in> set (usage_out (args (snd (snd r)))))"
proof -
  obtain c evs g' where r: "r = (c, evs, g')" by (cases r) auto
  from assms(2) r have "ev \<in> set evs \<or> (c = Some CHR ''h'' \<and> ev \<in> set (usage_out (args g')))"
    by (auto split: if_splits)
  with calls_events [OF assms(1), of ev] r show ?thesis by auto
qed

lemma parsed_trace_cases:
  assumes "ev \<in> set (trace (parsed e argv))"
  shows "(\<exists>x. ev = Getopt_error x) \<or>
         (returns e argv CHR ''h'' \<and> (\<exists>a. arg0 argv = Some a \<and> ev = Stderr (usage_text a)))"
proof -
  from assms obtain r where r: "r \<in> set (calls (posixly_correct e) (getopt_init argv))"
    and ev: "ev \<in> set (call_events r)"
    by (auto simp: parsed_trace)
  from calls_inv [OF getopt_inv_init r] have a0: "arg0 (args (snd (snd r))) = arg0 argv"
    by (simp add: getopt_inv_def)
  from call_events_cases [OF r ev] show ?thesis
  proof
    assume "\<exists>x. ev = Getopt_error x"
    then show ?thesis by simp
  next
    assume h: "fst r = Some CHR ''h'' \<and> ev \<in> set (usage_out (args (snd (snd r))))"
    with r have "returns e argv CHR ''h''" by (force simp: returns_def image_iff)
    with h a0 show ?thesis by (cases "arg0 argv") (simp_all add: usage_out_def)
  qed
qed

lemma header_args_calls:
  assumes "s \<in> set (header_args e argv)"
  shows "returns e argv CHR ''H'' \<and> (s \<noteq> [] \<or> s \<in> set argv)"
proof -
  from assms obtain r where r: "r \<in> set (calls (posixly_correct e) (getopt_init argv))"
    and s: "s \<in> set (H_arg r)"
    by (auto simp: header_args_def)
  obtain c evs g' where rr: "r = (c, evs, g')" by (cases r) auto
  from calls_reach [OF getopt_inv_init r] rr obtain g0
    where g: "getopt (posixly_correct e) options g0 = (c, evs, g')" by auto
  from s rr have c: "c = Some CHR ''H''"
    by (cases "c = Some CHR ''H''") simp_all
  from s rr c have o: "optarg g' = Some s"
    by (cases "optarg g'") simp_all
  from calls_inv [OF getopt_inv_init r] rr have "set (args g') = set argv"
    by (simp add: getopt_inv_def)
  moreover from r rr c have "returns e argv CHR ''H''"
    by (force simp: returns_def image_iff)
  moreover from g c have "getopt (posixly_correct e) options g0 = (Some CHR ''H'', evs, g')"
    by simp
  from getopt_optarg [OF this o] have "s \<noteq> [] \<or> s \<in> set (args g')" .
  ultimately show ?thesis by simp
qed

lemma getopt_end_inv: "getopt_inv argv (getopt_end e argv)"
proof -
  have "last (calls (posixly_correct e) (getopt_init argv))
      \<in> set (calls (posixly_correct e) (getopt_init argv))"
    by (rule last_in_set) (rule calls_not_Nil)
  from calls_inv [OF getopt_inv_init this] show ?thesis by (simp add: getopt_end_def)
qed

lemma positional_in_argv: "positional e argv = Some p \<Longrightarrow> p \<in> set argv"
proof -
  assume p: "positional e argv = Some p"
  from getopt_end_inv [of argv e]
  have l: "length (args (getopt_end e argv)) = length argv"
    and s: "set (args (getopt_end e argv)) = set argv"
    by (simp_all add: getopt_inv_def)
  from p have "optind (getopt_end e argv) < length argv"
    and "p = args (getopt_end e argv) ! optind (getopt_end e argv)"
    by (auto simp: positional_def split: if_splits)
  with l have "p \<in> set (args (getopt_end e argv))" by simp
  with s show ?thesis by simp
qed


text \<open>None of the vocabulary reads the file system.\<close>

lemma sys_stat_irrelevant [simp]:
  "parsed (e\<lparr>sys_stat := f\<rparr>) argv = parsed e argv"
  "positional (e\<lparr>sys_stat := f\<rparr>) argv = positional e argv"
  "returns (e\<lparr>sys_stat := f\<rparr>) argv c = returns e argv c"
  "header_text (e\<lparr>sys_stat := f\<rparr>) argv = header_text e argv"
  by (simp_all add: parsed_def positional_def getopt_end_def returns_def header_text_def
        header_args_def)

subsection \<open>The trace of a run\<close>

lemma read_last_header [simp]:
  "hs \<noteq> [] \<Longrightarrow> read_str (map Some hs @ ys) (length hs - Suc 0) = last hs"
  by (cases hs rule: rev_cases) (simp_all add: read_str_def nth_append)

lemma read_file_cell [simp]:
  "hs \<noteq> [] \<Longrightarrow> read_str ((map Some hs @ [Some p])[length hs - Suc 0 := x]) (length hs) = p"
  by (cases hs rule: rev_cases) (simp_all add: read_str_def nth_append nth_list_update)

lemma read_file_cell_plain [simp]: "read_str (map Some hs @ [Some p]) (length hs) = p"
  by (simp add: read_str_def nth_append)

lemma SendMessage_headers_parsed:
  assumes "state m = (state (parsed e argv))\<lparr>hIoTClient := h\<rparr>" "heap m = heap (parsed e argv)"
  shows "SendMessage_headers m =
     (header_text e argv,
      m\<lparr>heap :=
         (if header_args e argv = [] then heap m
          else (heap m)[length (header_args e argv) - 1 := Some (header_text e argv)])\<rparr>)"
  using assms
  by (simp add: SendMessage_headers_def parsed_headers parsed_heap header_text_def Let_def)

lemma SendMessage_open_parsed:
  assumes st: "state m = (state (parsed e argv))\<lparr>hIoTClient := h\<rparr>"
    and hp: "heap m = (if header_args e argv = [] then heap (parsed e argv)
          else (heap (parsed e argv))[length (header_args e argv) - 1 := x])"
  shows "SendMessage_open e m =
     (case positional e argv of
        None \<Rightarrow> (STDIN_FILENO, m)
      | Some p \<Rightarrow>
          (sys_open e p,
           m\<lparr>trace := trace m @ [Stat p] @ size_check e p @ [Open p (sys_open e p)]\<rparr>))"
proof (cases "positional e argv")
  case None
  with st show ?thesis by (simp add: SendMessage_open_def parsed_fileName)
next
  case (Some p)
  have fn: "fileName (state m) = Some (length (header_args e argv))"
    using st Some by (simp add: parsed_fileName)
  have path: "read_str (heap m) (length (header_args e argv)) = p"
  proof (cases "header_args e argv = []")
    case True
    with hp Some show ?thesis by (simp add: parsed_heap read_str_def)
  next
    case False
    with hp Some show ?thesis by (simp add: parsed_heap)
  qed
  show ?thesis
    by (cases "sys_stat e p")
       (simp_all add: SendMessage_open_def fn path Some size_check_def emit_def Let_def)
qed

lemma SendMessage_parsed:
  assumes st: "state m = (state (parsed e argv))\<lparr>hIoTClient := h\<rparr>"
    and hp: "heap m = heap (parsed e argv)"
  shows "SendMessage e m =
     (case positional e argv of
        None \<Rightarrow>
          (client_stream e h (header_text e argv) STDIN_FILENO,
           (snd (SendMessage_headers m))\<lparr>trace :=
              trace m @ [IOTCLIENT_Stream h (header_text e argv) STDIN_FILENO]\<rparr>)
      | Some p \<Rightarrow>
          (if sys_open e p \<noteq> -1
           then (client_stream e h (header_text e argv) (sys_open e p),
                 (snd (SendMessage_headers m))\<lparr>trace :=
                    trace m @ [Stat p] @ size_check e p @
                    [Open p (sys_open e p),
                     IOTCLIENT_Stream h (header_text e argv) (sys_open e p),
                     Close (sys_open e p)]\<rparr>)
           else (EINVAL,
                 (snd (SendMessage_headers m))\<lparr>trace :=
                    trace m @ [Stat p] @ size_check e p @
                    [Open p (sys_open e p), Stderr file_not_found]\<rparr>)))"
proof -
  let ?m1 = "snd (SendMessage_headers m)"
  have h1: "fst (SendMessage_headers m) = header_text e argv"
    using SendMessage_headers_parsed [OF st hp] by simp
  have st1: "state ?m1 = (state (parsed e argv))\<lparr>hIoTClient := h\<rparr>"
    and tr1: "trace ?m1 = trace m"
    and hp1: "heap ?m1 = (if header_args e argv = [] then heap (parsed e argv)
          else (heap (parsed e argv))[length (header_args e argv) - 1 := Some (header_text e argv)])"
    using SendMessage_headers_parsed [OF st hp] st hp by simp_all
  note op = SendMessage_open_parsed [OF st1 hp1]
  show ?thesis
  proof (cases "positional e argv")
    case None
    with op have "SendMessage_open e ?m1 = (STDIN_FILENO, ?m1)" by simp
    with None h1 st1 tr1 show ?thesis
      by (simp add: SendMessage_def split_beta emit_def parsed_fileName STDIN_FILENO_def)
  next
    case (Some p)
    with op have "SendMessage_open e ?m1 =
        (sys_open e p,
         ?m1\<lparr>trace := trace ?m1 @ [Stat p] @ size_check e p @ [Open p (sys_open e p)]\<rparr>)"
      by simp
    with Some h1 st1 tr1 show ?thesis
      by (simp add: SendMessage_def split_beta emit_def parsed_fileName)
  qed
qed

lemma created_fields:
  "state (created e argv) = (state (parsed e argv))\<lparr>hIoTClient := client_create e\<rparr>"
  "heap (created e argv) = heap (parsed e argv)"
  "trace (created e argv) = trace (parsed e argv) @ [IOTCLIENT_Create]"
  by (simp_all add: created_def emit_def Let_def)

lemma sent_eq:
  "sent e argv =
     SendMessage e ((created e argv)\<lparr>trace :=
        trace (parsed e argv) @ [IOTCLIENT_Create, IOTCLIENT_SetVerbose (returns e argv CHR ''v'')]\<rparr>)"
  by (simp add: sent_def emit_def created_fields parsed_verbose)

lemma sent_stdin:
  assumes "positional e argv = None"
  shows "fst (sent e argv) =
           client_stream e (client_create e) (header_text e argv) STDIN_FILENO"
    and "trace (snd (sent e argv)) =
           trace (parsed e argv) @
           [IOTCLIENT_Create, IOTCLIENT_SetVerbose (returns e argv CHR ''v''),
            IOTCLIENT_Stream (client_create e) (header_text e argv) STDIN_FILENO]"
  using assms
  by (simp_all add: sent_eq SendMessage_parsed [where argv = argv and h = "client_create e"]
        created_fields)

lemma sent_file:
  assumes "positional e argv = Some p"
  shows "fst (sent e argv) =
           (if sys_open e p \<noteq> -1
            then client_stream e (client_create e) (header_text e argv) (sys_open e p)
            else EINVAL)"
    and "trace (snd (sent e argv)) =
           trace (parsed e argv) @
           [IOTCLIENT_Create, IOTCLIENT_SetVerbose (returns e argv CHR ''v''), Stat p] @
           size_check e p @ [Open p (sys_open e p)] @
           (if sys_open e p \<noteq> -1
            then [IOTCLIENT_Stream (client_create e) (header_text e argv) (sys_open e p),
                  Close (sys_open e p)]
            else [Stderr file_not_found])"
  using assms
  by (simp_all add: sent_eq SendMessage_parsed [where argv = argv and h = "client_create e"]
        created_fields)

lemma main_unfold:
  "main e argv =
     (if hIoTClient (state (created e argv)) \<noteq> None
      then (EOK e, cleanup (emit IOTCLIENT_Close (snd (sent e argv))))
      else (EINVAL, cleanup (created e argv)))"
  by (simp add: main_def sent_def created_def parsed_def split_beta Let_def)

lemma cleanup_trace: "trace (cleanup m) = trace m"
  by (simp add: cleanup_def Let_def split: option.splits)

lemma main_result:
  "fst (main e argv) = (if client_create e = None then EINVAL else EOK e)"
  by (simp add: main_unfold created_fields)

lemma main_trace:
  "trace (snd (main e argv)) =
     (if client_create e = None then trace (parsed e argv) @ [IOTCLIENT_Create]
      else trace (snd (sent e argv)) @ [IOTCLIENT_Close])"
  by (simp add: main_unfold created_fields cleanup_trace emit_def)

lemma SendMessage_headers_fields:
  "state (snd (SendMessage_headers m)) = state m"
  "trace (snd (SendMessage_headers m)) = trace m"
  "heap (snd (SendMessage_headers m)) =
     (case headers (state m) of
        None \<Rightarrow> heap m
      | Some a \<Rightarrow> (heap m)[a := Some (rewrite_headers (read_str (heap m) a))])"
  by (simp_all add: SendMessage_headers_def Let_def split: option.splits)

lemma SendMessage_open_fields:
  "state (snd (SendMessage_open e m)) = state m"
  "heap (snd (SendMessage_open e m)) = heap m"
  by (simp_all add: SendMessage_open_def emit_def Let_def split: option.splits)

lemma SendMessage_open_trace:
  "trace (snd (SendMessage_open e m)) =
     trace m @
     (case fileName (state m) of
        None \<Rightarrow> []
      | Some a \<Rightarrow>
          [Stat (read_str (heap m) a)] @ size_check e (read_str (heap m) a) @
          [Open (read_str (heap m) a) (sys_open e (read_str (heap m) a))])"
  by (simp add: SendMessage_open_def emit_def size_check_def Let_def split: option.splits)

lemma SendMessage_open_fd:
  "fst (SendMessage_open e m) =
     (case fileName (state m) of
        None \<Rightarrow> STDIN_FILENO
      | Some a \<Rightarrow> sys_open e (read_str (heap m) a))"
  by (simp add: SendMessage_open_def Let_def split: option.splits)

lemma SendMessage_state: "state (snd (SendMessage e m)) = state m"
  by (simp add: SendMessage_def split_beta Let_def emit_def SendMessage_open_fields
        SendMessage_headers_fields)

lemma SendMessage_heap:
  "heap (snd (SendMessage e m)) =
     (case headers (state m) of
        None \<Rightarrow> heap m
      | Some a \<Rightarrow> (heap m)[a := Some (rewrite_headers (read_str (heap m) a))])"
  by (simp add: SendMessage_def split_beta Let_def emit_def SendMessage_open_fields
        SendMessage_headers_fields)

lemma SendMessage_trace:
  "trace (snd (SendMessage e m)) =
     trace (snd (SendMessage_open e (snd (SendMessage_headers m)))) @
     (if fst (SendMessage_open e (snd (SendMessage_headers m))) \<noteq> -1
      then [IOTCLIENT_Stream (hIoTClient (state m)) (fst (SendMessage_headers m))
              (fst (SendMessage_open e (snd (SendMessage_headers m))))] @
           (if fileName (state m) \<noteq> None
            then [Close (fst (SendMessage_open e (snd (SendMessage_headers m))))] else [])
      else [Stderr file_not_found])"
  by (simp add: SendMessage_def split_beta Let_def emit_def SendMessage_open_fields
        SendMessage_headers_fields)

lemma main_run:
  "trace (snd (main e argv)) =
     trace (parsed e argv) @ [IOTCLIENT_Create] @
     (if client_create e = None then []
      else [IOTCLIENT_SetVerbose (returns e argv CHR ''v'')] @
           (case positional e argv of
              None \<Rightarrow> [IOTCLIENT_Stream (client_create e) (header_text e argv) STDIN_FILENO]
            | Some p \<Rightarrow>
                [Stat p] @ size_check e p @ [Open p (sys_open e p)] @
                (if sys_open e p \<noteq> -1
                 then [IOTCLIENT_Stream (client_create e) (header_text e argv) (sys_open e p),
                       Close (sys_open e p)]
                 else [Stderr file_not_found])) @
           [IOTCLIENT_Close])"
  by (cases "positional e argv") (simp_all add: main_trace sent_stdin sent_file)

lemma size_check_events: "ev \<in> set (size_check e p) \<Longrightarrow> ev = Stderr size_warning"
  by (auto simp: size_check_def split: option.splits if_splits)

lemma parsed_no_stream: "IOTCLIENT_Stream h t fd \<notin> set (trace (parsed e argv))"
  using parsed_trace_cases [of "IOTCLIENT_Stream h t fd" e argv] by auto

lemma main_stream:
  assumes "IOTCLIENT_Stream h t fd \<in> set (trace (snd (main e argv)))"
  shows "client_create e \<noteq> None \<and> h = client_create e \<and> t = header_text e argv \<and>
         (case positional e argv of
            None \<Rightarrow> fd = STDIN_FILENO
          | Some p \<Rightarrow> fd = sys_open e p \<and> fd \<noteq> -1)"
  using assms parsed_no_stream [of h t fd e argv]
  by (auto simp: main_run split: if_splits option.splits dest: size_check_events)

lemma no_H_no_header_args: "\<not> returns e argv CHR ''H'' \<Longrightarrow> header_args e argv = []"
  using header_args_calls [of _ e argv] by (cases "header_args e argv") auto

lemma filter_size_check [simp]:
  "filter (\<lambda>ev. ev \<noteq> Stderr size_warning) (size_check e p) = []"
  by (simp add: size_check_def split: option.splits)

lemma file_not_found_neq [simp]: "file_not_found \<noteq> size_warning"
  by (simp add: file_not_found_def size_warning_def)

lemma usage_text_neq [simp]:
  "usage_text a \<noteq> size_warning" "usage_text a \<noteq> file_not_found"
  by (simp_all add: usage_text_def size_warning_def file_not_found_def)


subsection \<open>Pointers and strings after parsing and after the send\<close>

lemma read_str_update:
  "a < length h \<Longrightarrow> read_str (h[a := Some s]) b = (if b = a then s else read_str h b)"
  by (simp add: read_str_def nth_list_update)

lemma pred_length_less: "xs \<noteq> [] \<Longrightarrow> length xs - Suc 0 < length xs + k"
  by (cases xs) simp_all

lemma pred_length_neq: "xs \<noteq> [] \<Longrightarrow> length xs \<noteq> length xs - Suc 0"
  by (cases xs) simp_all

lemma parsed_headers_valid:
  "headers (state (parsed e argv)) = Some a \<Longrightarrow>
   a < length (heap (parsed e argv)) \<and> header_args e argv \<noteq> [] \<and>
   a = length (header_args e argv) - 1 \<and> read_str (heap (parsed e argv)) a = last (header_args e argv)"
proof -
  assume h: "headers (state (parsed e argv)) = Some a"
  then have n: "header_args e argv \<noteq> []" and a: "a = length (header_args e argv) - 1"
    by (auto simp: parsed_headers split: if_splits)
  from n a have "a < length (heap (parsed e argv))" by (simp add: parsed_heap pred_length_less)
  with n a show ?thesis by (simp add: parsed_heap)
qed

lemma parsed_fileName_valid:
  "fileName (state (parsed e argv)) = Some a \<Longrightarrow>
   a < length (heap (parsed e argv)) \<and> a = length (header_args e argv) \<and>
   positional e argv = Some (read_str (heap (parsed e argv)) a)"
  by (auto simp: parsed_fileName parsed_heap split: option.splits)

lemma cleanup_pointers:
  "headers (state (cleanup m)) = None" "fileName (state (cleanup m)) = None"
  by (simp_all add: cleanup_def Let_def split: option.splits)

lemma main_pointers:
  "headers (state (snd (main e argv))) = None" "fileName (state (snd (main e argv))) = None"
  by (simp_all add: main_unfold cleanup_pointers)

lemma sent_state: "state (snd (sent e argv)) = (state (parsed e argv))\<lparr>hIoTClient := client_create e\<rparr>"
  by (simp add: sent_def SendMessage_state emit_def created_fields)

lemma sent_heap:
  "heap (snd (sent e argv)) =
     (case headers (state (parsed e argv)) of
        None \<Rightarrow> heap (parsed e argv)
      | Some a \<Rightarrow>
          (heap (parsed e argv))[a := Some (rewrite_headers (read_str (heap (parsed e argv)) a))])"
  by (simp add: sent_def SendMessage_heap emit_def created_fields split: option.splits)

lemma parsed_headers_cell:
  "headers (state (parsed e argv)) = Some a \<Longrightarrow> \<exists>s. heap (parsed e argv) ! a = Some s"
proof -
  assume h: "headers (state (parsed e argv)) = Some a"
  then have n: "header_args e argv \<noteq> []" and a: "a = length (header_args e argv) - 1"
    by (auto simp: parsed_headers split: if_splits)
  from n have "a < length (map Some (header_args e argv))"
    by (simp add: a pred_length_less [where k = 0, simplified])
  then show ?thesis by (simp add: parsed_heap nth_append)
qed

lemma parsed_fileName_cell:
  "fileName (state (parsed e argv)) = Some a \<Longrightarrow> \<exists>s. heap (parsed e argv) ! a = Some s"
  by (auto simp: parsed_fileName parsed_heap nth_append split: option.splits)

lemma cleanup_heap:
  "heap (cleanup m) =
     (case fileName (state m) of
        None \<Rightarrow> (case headers (state m) of None \<Rightarrow> heap m | Some a \<Rightarrow> free a (heap m))
      | Some b \<Rightarrow>
          free b (case headers (state m) of None \<Rightarrow> heap m | Some a \<Rightarrow> free a (heap m)))"
  by (simp add: cleanup_def Let_def split: option.splits)

lemma freed_cell:
  "a < length h \<Longrightarrow> free a h ! a = None"
  "a < length h \<Longrightarrow> free b (free a h) ! a = None"
  "a < length h \<Longrightarrow> free a (free b h) ! a = None"
  "length (free a h) = length h"
  by (cases "a = b"; simp add: free_def nth_list_update)+

lemma cleanup_frees:
  "headers (state m) = Some a \<Longrightarrow> a < length (heap m) \<Longrightarrow>
   a < length (heap (cleanup m)) \<and> heap (cleanup m) ! a = None"
  "fileName (state m) = Some a \<Longrightarrow> a < length (heap m) \<Longrightarrow>
   a < length (heap (cleanup m)) \<and> heap (cleanup m) ! a = None"
  by (simp_all add: cleanup_heap freed_cell split: option.splits)

lemma sent_heap_length: "length (heap (snd (sent e argv))) = length (heap (parsed e argv))"
  by (simp add: sent_heap split: option.splits)

lemma main_frees_headers:
  assumes "headers (state (parsed e argv)) = Some a"
  shows "a < length (heap (snd (main e argv))) \<and> heap (snd (main e argv)) ! a = None"
proof -
  from parsed_headers_valid [OF assms] have v: "a < length (heap (parsed e argv))" by simp
  show ?thesis
  proof (cases "client_create e")
    case None
    then have "snd (main e argv) = cleanup (created e argv)"
      by (simp add: main_unfold created_fields)
    moreover have "a < length (heap (cleanup (created e argv))) \<and>
        heap (cleanup (created e argv)) ! a = None"
      by (rule cleanup_frees(1)) (simp_all add: created_fields assms v)
    ultimately show ?thesis by simp
  next
    case (Some h)
    then have "snd (main e argv) = cleanup (emit IOTCLIENT_Close (snd (sent e argv)))"
      by (simp add: main_unfold created_fields)
    moreover have "a < length (heap (cleanup (emit IOTCLIENT_Close (snd (sent e argv))))) \<and>
        heap (cleanup (emit IOTCLIENT_Close (snd (sent e argv)))) ! a = None"
      by (rule cleanup_frees(1)) (simp_all add: emit_def sent_state sent_heap_length assms v)
    ultimately show ?thesis by simp
  qed
qed

lemma main_frees_fileName:
  assumes "fileName (state (parsed e argv)) = Some a"
  shows "a < length (heap (snd (main e argv))) \<and> heap (snd (main e argv)) ! a = None"
proof -
  from parsed_fileName_valid [OF assms] have v: "a < length (heap (parsed e argv))" by simp
  show ?thesis
  proof (cases "client_create e")
    case None
    then have "snd (main e argv) = cleanup (created e argv)"
      by (simp add: main_unfold created_fields)
    moreover have "a < length (heap (cleanup (created e argv))) \<and>
        heap (cleanup (created e argv)) ! a = None"
      by (rule cleanup_frees(2)) (simp_all add: created_fields assms v)
    ultimately show ?thesis by simp
  next
    case (Some h)
    then have "snd (main e argv) = cleanup (emit IOTCLIENT_Close (snd (sent e argv)))"
      by (simp add: main_unfold created_fields)
    moreover have "a < length (heap (cleanup (emit IOTCLIENT_Close (snd (sent e argv))))) \<and>
        heap (cleanup (emit IOTCLIENT_Close (snd (sent e argv)))) ! a = None"
      by (rule cleanup_frees(2)) (simp_all add: emit_def sent_state sent_heap_length assms v)
    ultimately show ?thesis by simp
  qed
qed

section \<open>The properties\<close>

text \<open>
  C1. The rewrite applied to a header string replaces every \<^verbatim>\<open>;\<close> with a newline and
  leaves every other character, and the length, as they are; \<^verbatim>\<open>a:1;b:2\<close> becomes
  \<^verbatim>\<open>a:1\<close>, newline, \<^verbatim>\<open>b:2\<close>. In a run whose command line has a \<^verbatim>\<open>-H\<close> option, the
  text every stream call receives is the last \<^verbatim>\<open>-H\<close> argument rewritten so.
\<close>

theorem header_rewrite_semicolons:
  "rewrite_headers hs = map (\<lambda>c. if c = CHR '';'' then NL else c) hs \<and>
   length (rewrite_headers hs) = length hs \<and>
   rewrite_headers ''a:1;b:2'' = ''a:1'' @ [NL] @ ''b:2'' \<and>
   (\<forall>h t fd. header_args e argv \<noteq> [] \<longrightarrow>
      IOTCLIENT_Stream h t fd \<in> set (trace (snd (main e argv))) \<longrightarrow>
      t = map (\<lambda>c. if c = CHR '';'' then NL else c) (last (header_args e argv)))"
proof -
  have "t = map (\<lambda>c. if c = CHR '';'' then NL else c) (last (header_args e argv))"
    if "header_args e argv \<noteq> []" "IOTCLIENT_Stream h t fd \<in> set (trace (snd (main e argv)))"
    for h t fd
    using main_stream [OF that(2)] that(1) by (simp add: header_text_def rewrite_headers_map)
  then show ?thesis by (simp add: rewrite_headers_map)
qed

text \<open>
  The run \<^verbatim>\<open>iotsend -H x f -H "a:1;b:2"\<close>: the second \<^verbatim>\<open>-H\<close>, behind the file name, is
  the one that counts.
\<close>

theorem header_rewrite_semicolons_witness:
  "header_args env_ok [''iotsend'', ''-H'', ''x'', ''f'', ''-H'', ''a:1;b:2''] \<noteq> [] \<and>
   last (header_args env_ok [''iotsend'', ''-H'', ''x'', ''f'', ''-H'', ''a:1;b:2'']) = ''a:1;b:2'' \<and>
   IOTCLIENT_Stream (Some 1) (''a:1'' @ [NL] @ ''b:2'') 3
     \<in> set (trace (snd (main env_ok [''iotsend'', ''-H'', ''x'', ''f'', ''-H'', ''a:1;b:2''])))"
proof -
  have a: "header_args env_ok [''iotsend'', ''-H'', ''x'', ''f'', ''-H'', ''a:1;b:2''] \<noteq> []"
    by code_simp
  have b: "last (header_args env_ok [''iotsend'', ''-H'', ''x'', ''f'', ''-H'', ''a:1;b:2'']) =
      ''a:1;b:2''" by code_simp
  have c: "IOTCLIENT_Stream (Some 1) (''a:1'' @ [NL] @ ''b:2'') 3
     \<in> set (trace (snd (main env_ok [''iotsend'', ''-H'', ''x'', ''f'', ''-H'', ''a:1;b:2''])))"
    by code_simp
  from header_rewrite_semicolons [of "''a:1;b:2''" env_ok
      "[''iotsend'', ''-H'', ''x'', ''f'', ''-H'', ''a:1;b:2'']"]
    a b c show ?thesis by simp
qed

text \<open>
  C2. When the client is created, the exit code of the process is to be the result of the
  stream call, so that a failed send is a failed run. The code does not do this:
  \<open>SendMessage\<close> returns the result of the stream call, or \<^verbatim>\<open>EINVAL\<close> when the file
  cannot be opened, and \<open>main\<close> drops that value and exits with \<^verbatim>\<open>EOK\<close>. In
  \<open>env_ok\<close> the stream call of \<^verbatim>\<open>iotsend\<close> returns 5 and the exit code is 0; for
  \<^verbatim>\<open>iotsend g\<close>, with no file \<^verbatim>\<open>g\<close>, \<open>SendMessage\<close> returns 22 and the exit code is 0.
\<close>

theorem exit_code_drops_send_result:
  "client_create env_ok = Some 1 \<and>
   trace (snd (main env_ok [''iotsend''])) =
     [IOTCLIENT_Create, IOTCLIENT_SetVerbose False,
      IOTCLIENT_Stream (Some 1) (''source:iotsend'' @ [NL, NL]) 0, IOTCLIENT_Close] \<and>
   client_stream env_ok (Some 1) (''source:iotsend'' @ [NL, NL]) 0 = 5 \<and>
   fst (sent env_ok [''iotsend'']) = 5 \<and>
   fst (main env_ok [''iotsend'']) = 0 \<and>
   fst (sent env_ok [''iotsend'', ''g'']) = 22 \<and>
   fst (main env_ok [''iotsend'', ''g'']) = 0"
  by code_simp

text \<open>
  C3. When the command line has no \<^verbatim>\<open>-H\<close> option, the header text of every stream call
  is \<^verbatim>\<open>source:iotsend\<close> followed by two newlines.
\<close>

theorem default_header_without_H:
  "\<not> returns e argv CHR ''H'' \<Longrightarrow>
   \<forall>h t fd. IOTCLIENT_Stream h t fd \<in> set (trace (snd (main e argv))) \<longrightarrow>
     t = ''source:iotsend'' @ [NL, NL]"
proof (intro allI impI)
  fix h t fd
  assume n: "\<not> returns e argv CHR ''H''"
    and s: "IOTCLIENT_Stream h t fd \<in> set (trace (snd (main e argv)))"
  from main_stream [OF s] no_H_no_header_args [OF n]
  show "t = ''source:iotsend'' @ [NL, NL]"
    by (simp add: header_text_def default_headers_def)
qed

text \<open>
  Two runs that stream \<^verbatim>\<open>f\<close> under the default header: \<^verbatim>\<open>iotsend -v f\<close>, and
  \<^verbatim>\<open>iotsend f -H "a;b"\<close> with \<^verbatim>\<open>POSIXLY_CORRECT\<close> set, where the scan stops at \<^verbatim>\<open>f\<close>.
\<close>

theorem default_header_without_H_witness:
  "\<not> returns env_ok [''iotsend'', ''-v'', ''f''] CHR ''H'' \<and>
   IOTCLIENT_Stream (Some 1) (''source:iotsend'' @ [NL, NL]) 3
     \<in> set (trace (snd (main env_ok [''iotsend'', ''-v'', ''f'']))) \<and>
   \<not> returns env_posix [''iotsend'', ''f'', ''-H'', ''a;b''] CHR ''H'' \<and>
   IOTCLIENT_Stream (Some 1) (''source:iotsend'' @ [NL, NL]) 3
     \<in> set (trace (snd (main env_posix [''iotsend'', ''f'', ''-H'', ''a;b''])))"
proof -
  have n: "\<not> returns env_ok [''iotsend'', ''-v'', ''f''] CHR ''H''" by code_simp
  have s: "IOTCLIENT_Stream (Some 1) (''source:iotsend'' @ [NL, NL]) 3
     \<in> set (trace (snd (main env_ok [''iotsend'', ''-v'', ''f''])))" by code_simp
  have n': "\<not> returns env_posix [''iotsend'', ''f'', ''-H'', ''a;b''] CHR ''H''" by code_simp
  have s': "IOTCLIENT_Stream (Some 1) (''source:iotsend'' @ [NL, NL]) 3
     \<in> set (trace (snd (main env_posix [''iotsend'', ''f'', ''-H'', ''a;b''])))" by code_simp
  from default_header_without_H [OF n] n s n' s' show ?thesis by simp
qed

text \<open>
  C7. When the command line has no positional file argument, every stream call gets the
  descriptor of standard input, no file is opened, and when the client is created the
  stream call is made.
\<close>

theorem stdin_without_file:
  "positional e argv = None \<Longrightarrow>
   (\<forall>h t fd. IOTCLIENT_Stream h t fd \<in> set (trace (snd (main e argv))) \<longrightarrow>
      fd = STDIN_FILENO) \<and>
   (\<forall>p fd. Open p fd \<notin> set (trace (snd (main e argv)))) \<and>
   (client_create e \<noteq> None \<longrightarrow>
      IOTCLIENT_Stream (client_create e) (header_text e argv) STDIN_FILENO
        \<in> set (trace (snd (main e argv))))"
proof -
  assume p: "positional e argv = None"
  have a: "fd = STDIN_FILENO"
    if "IOTCLIENT_Stream h t fd \<in> set (trace (snd (main e argv)))" for h t fd
    using main_stream [OF that] p by simp
  have b: "Open q fd \<notin> set (trace (snd (main e argv)))" for q fd
    using parsed_trace_cases [of "Open q fd" e argv] p by (auto simp: main_run)
  have c: "IOTCLIENT_Stream (client_create e) (header_text e argv) STDIN_FILENO
        \<in> set (trace (snd (main e argv)))" if "client_create e \<noteq> None"
    using that p by (auto simp: main_run)
  from a b c show ?thesis by blast
qed

theorem stdin_without_file_witness:
  "positional env_ok [''iotsend'', ''-H'', ''k:v''] = None \<and> client_create env_ok \<noteq> None \<and>
   IOTCLIENT_Stream (Some 1) ''k:v'' 0
     \<in> set (trace (snd (main env_ok [''iotsend'', ''-H'', ''k:v''])))"
proof -
  have p: "positional env_ok [''iotsend'', ''-H'', ''k:v''] = None" by code_simp
  have s: "IOTCLIENT_Stream (Some 1) ''k:v'' 0
     \<in> set (trace (snd (main env_ok [''iotsend'', ''-H'', ''k:v''])))" by code_simp
  have c: "client_create env_ok \<noteq> None" by code_simp
  from stdin_without_file [OF p] p s c show ?thesis by simp
qed

text \<open>
  C4, as amended. When the positional file cannot be opened, no stream call is made; and
  when the client is created, \<^verbatim>\<open>File not found\<close> is printed on standard error.
\<close>

theorem unopened_file_not_streamed:
  "positional e argv = Some p \<Longrightarrow> sys_open e p = -1 \<Longrightarrow>
   (\<forall>h t fd. IOTCLIENT_Stream h t fd \<notin> set (trace (snd (main e argv)))) \<and>
   (client_create e \<noteq> None \<longrightarrow> Stderr file_not_found \<in> set (trace (snd (main e argv))))"
proof -
  assume p: "positional e argv = Some p" and o: "sys_open e p = -1"
  have a: "IOTCLIENT_Stream h t fd \<notin> set (trace (snd (main e argv)))" for h t fd
    using main_stream [of h t fd e argv] p o by auto
  have b: "Stderr file_not_found \<in> set (trace (snd (main e argv)))" if "client_create e \<noteq> None"
    using that p o by (auto simp: main_run)
  from a b show ?thesis by blast
qed

theorem unopened_file_not_streamed_witness:
  "positional env_ok [''iotsend'', ''g''] = Some ''g'' \<and> sys_open env_ok ''g'' = -1 \<and>
   client_create env_ok \<noteq> None \<and>
   Stderr file_not_found \<in> set (trace (snd (main env_ok [''iotsend'', ''g''])))"
proof -
  have p: "positional env_ok [''iotsend'', ''g''] = Some ''g''" by code_simp
  have o: "sys_open env_ok ''g'' = -1" by code_simp
  have c: "client_create env_ok \<noteq> None" by code_simp
  from unopened_file_not_streamed [OF p o] p o c show ?thesis by blast
qed

text \<open>
  C4 as stated fails: when the client cannot be created, \<open>SendMessage\<close> is not called,
  and the run prints nothing about the file that cannot be opened.
\<close>

theorem unopened_file_counterexample:
  "positional env_down [''iotsend'', ''g''] = Some ''g'' \<and> sys_open env_down ''g'' = -1 \<and>
   trace (snd (main env_down [''iotsend'', ''g''])) = [IOTCLIENT_Create]"
  by code_simp

text \<open>
  C5, as amended. When the client is created and the positional file is larger than
  \<^verbatim>\<open>MAX_IOT_MSG_SIZE\<close>, the warning is printed and the file is still opened; when the
  open succeeds its descriptor goes to the stream call. The size check prevents nothing:
  but for the warning, the run and its exit code are those of the same run without the
  check.
\<close>

theorem size_check_is_advisory:
  "client_create e \<noteq> None \<Longrightarrow> positional e argv = Some p \<Longrightarrow> sys_stat e p = Some sz \<Longrightarrow>
   MAX_IOT_MSG_SIZE e < sz \<Longrightarrow>
   Stderr size_warning \<in> set (trace (snd (main e argv))) \<and>
   Open p (sys_open e p) \<in> set (trace (snd (main e argv))) \<and>
   (sys_open e p \<noteq> -1 \<longrightarrow>
      IOTCLIENT_Stream (client_create e) (header_text e argv) (sys_open e p)
        \<in> set (trace (snd (main e argv)))) \<and>
   filter (\<lambda>ev. ev \<noteq> Stderr size_warning) (trace (snd (main e argv))) =
     filter (\<lambda>ev. ev \<noteq> Stderr size_warning)
       (trace (snd (main (e\<lparr>sys_stat := (\<lambda>q. None)\<rparr>) argv))) \<and>
   fst (main e argv) = fst (main (e\<lparr>sys_stat := (\<lambda>q. None)\<rparr>) argv)"
proof -
  assume c: "client_create e \<noteq> None" and p: "positional e argv = Some p"
    and s: "sys_stat e p = Some sz" and z: "MAX_IOT_MSG_SIZE e < sz"
  from s z have sc: "size_check e p = [Stderr size_warning]" by (simp add: size_check_def)
  have a: "Stderr size_warning \<in> set (trace (snd (main e argv)))"
    using c p sc by (auto simp: main_run)
  have b: "Open p (sys_open e p) \<in> set (trace (snd (main e argv)))"
    using c p by (auto simp: main_run)
  have d: "IOTCLIENT_Stream (client_create e) (header_text e argv) (sys_open e p)
        \<in> set (trace (snd (main e argv)))" if "sys_open e p \<noteq> -1"
    using c p that by (auto simp: main_run)
  have f: "filter (\<lambda>ev. ev \<noteq> Stderr size_warning) (trace (snd (main e argv))) =
     filter (\<lambda>ev. ev \<noteq> Stderr size_warning)
       (trace (snd (main (e\<lparr>sys_stat := (\<lambda>q. None)\<rparr>) argv)))"
    using p by (simp add: main_run)
  have g: "fst (main e argv) = fst (main (e\<lparr>sys_stat := (\<lambda>q. None)\<rparr>) argv)"
    by (simp add: main_result)
  from a b d f g show ?thesis by blast
qed

theorem size_check_is_advisory_witness:
  "client_create env_ok \<noteq> None \<and>
   positional env_ok [''iotsend'', ''f'', ''-H'', ''a;b''] = Some ''f'' \<and>
   sys_stat env_ok ''f'' = Some 100 \<and> MAX_IOT_MSG_SIZE env_ok < 100 \<and>
   Stderr size_warning \<in> set (trace (snd (main env_ok [''iotsend'', ''f'', ''-H'', ''a;b'']))) \<and>
   Open ''f'' 3 \<in> set (trace (snd (main env_ok [''iotsend'', ''f'', ''-H'', ''a;b'']))) \<and>
   sys_open env_ok ''f'' \<noteq> -1 \<and>
   IOTCLIENT_Stream (Some 1) (''a'' @ [NL] @ ''b'') 3
     \<in> set (trace (snd (main env_ok [''iotsend'', ''f'', ''-H'', ''a;b''])))"
proof -
  have t: "header_text env_ok [''iotsend'', ''f'', ''-H'', ''a;b''] = ''a'' @ [NL] @ ''b''"
    by code_simp
  have c: "client_create env_ok \<noteq> None" by code_simp
  have c1: "client_create env_ok = Some 1" by code_simp
  have p: "positional env_ok [''iotsend'', ''f'', ''-H'', ''a;b''] = Some ''f''" by code_simp
  have s: "sys_stat env_ok ''f'' = Some 100" by code_simp
  have z: "MAX_IOT_MSG_SIZE env_ok < 100" by code_simp
  have o: "sys_open env_ok ''f'' = 3" by code_simp
  from size_check_is_advisory [OF c p s z] c1 p s z o t show ?thesis by simp
qed

text \<open>
  C5 as stated fails in two ways: when the client cannot be created there is no warning
  and the file is not opened; and a file that \<^verbatim>\<open>stat\<close> finds but \<^verbatim>\<open>open\<close> refuses gets
  the warning and no stream call.
\<close>

theorem size_check_counterexample:
  "positional env_down [''iotsend'', ''f''] = Some ''f'' \<and>
   sys_stat env_down ''f'' = Some 100 \<and> MAX_IOT_MSG_SIZE env_down = 10 \<and>
   trace (snd (main env_down [''iotsend'', ''f''])) = [IOTCLIENT_Create] \<and>
   sys_stat env_locked ''f'' = Some 100 \<and> MAX_IOT_MSG_SIZE env_locked = 10 \<and>
   trace (snd (main env_locked [''iotsend'', ''f''])) =
     [IOTCLIENT_Create, IOTCLIENT_SetVerbose False, Stat ''f'', Stderr size_warning,
      Open ''f'' (-1), Stderr file_not_found, IOTCLIENT_Close]"
  by code_simp




text \<open>
  C8. In the send operation a file descriptor is opened before the stream call and closed
  right after it: with a file name, the events added are the size check, the \<^verbatim>\<open>open\<close>,
  and then either the stream call on that descriptor followed at once by its
  \<^verbatim>\<open>close\<close>, or, when \<^verbatim>\<open>open\<close> fails, the error message alone. With no file name the
  only event is the stream call on standard input, which is not closed.
\<close>

theorem descriptor_lifecycle:
  "(fileName (state m) = None \<longrightarrow>
      (\<exists>h t. trace (snd (SendMessage e m)) = trace m @ [IOTCLIENT_Stream h t STDIN_FILENO])) \<and>
   (fileName (state m) \<noteq> None \<longrightarrow>
      (\<exists>p pre fd h t.
         set pre \<subseteq> {Stat p, Stderr size_warning} \<and>
         trace (snd (SendMessage e m)) =
           trace m @ pre @ [Open p fd] @
           (if fd \<noteq> -1 then [IOTCLIENT_Stream h t fd, Close fd] else [Stderr file_not_found])))"
proof (intro conjI impI)
  assume "fileName (state m) = None"
  then have "trace (snd (SendMessage e m)) =
      trace m @ [IOTCLIENT_Stream (hIoTClient (state m)) (fst (SendMessage_headers m)) STDIN_FILENO]"
    by (simp add: SendMessage_trace SendMessage_open_trace SendMessage_open_fd
          SendMessage_headers_fields(1,2) STDIN_FILENO_def)
  then show "\<exists>h t. trace (snd (SendMessage e m)) = trace m @ [IOTCLIENT_Stream h t STDIN_FILENO]"
    by blast
next
  assume "fileName (state m) \<noteq> None"
  then obtain a where a: "fileName (state m) = Some a" by auto
  let ?p = "read_str (heap (snd (SendMessage_headers m))) a"
  let ?pre = "[Stat ?p] @ size_check e ?p"
  have "set ?pre \<subseteq> {Stat ?p, Stderr size_warning}"
    by (auto dest: size_check_events)
  moreover have "trace (snd (SendMessage e m)) =
      trace m @ ?pre @ [Open ?p (sys_open e ?p)] @
      (if sys_open e ?p \<noteq> -1
       then [IOTCLIENT_Stream (hIoTClient (state m)) (fst (SendMessage_headers m)) (sys_open e ?p),
             Close (sys_open e ?p)]
       else [Stderr file_not_found])"
    using a
    by (simp add: SendMessage_trace SendMessage_open_trace SendMessage_open_fd
          SendMessage_headers_fields(1,2))
  ultimately show "\<exists>p pre fd h t.
         set pre \<subseteq> {Stat p, Stderr size_warning} \<and>
         trace (snd (SendMessage e m)) =
           trace m @ pre @ [Open p fd] @
           (if fd \<noteq> -1 then [IOTCLIENT_Stream h t fd, Close fd] else [Stderr file_not_found])"
    by blast
qed

text \<open>
  Three send operations in \<open>env_ok\<close>: a file that opens, a file that does not, and no
  file.
\<close>

theorem descriptor_lifecycle_witness:
  "fileName (state (parsed env_ok [''iotsend'', ''f''])) \<noteq> None \<and>
   trace (snd (SendMessage env_ok (parsed env_ok [''iotsend'', ''f'']))) =
     [Stat ''f'', Stderr size_warning, Open ''f'' 3,
      IOTCLIENT_Stream None (''source:iotsend'' @ [NL, NL]) 3, Close 3] \<and>
   trace (snd (SendMessage env_ok (parsed env_ok [''iotsend'', ''g'']))) =
     [Stat ''g'', Open ''g'' (-1), Stderr file_not_found] \<and>
   fileName (state (parsed env_ok [''iotsend''])) = None \<and>
   trace (snd (SendMessage env_ok (parsed env_ok [''iotsend'']))) =
     [IOTCLIENT_Stream None (''source:iotsend'' @ [NL, NL]) 0]"
proof -
  have a: "fileName (state (parsed env_ok [''iotsend'', ''f''])) \<noteq> None" by code_simp
  have b: "trace (snd (SendMessage env_ok (parsed env_ok [''iotsend'', ''f'']))) =
     [Stat ''f'', Stderr size_warning, Open ''f'' 3,
      IOTCLIENT_Stream None (''source:iotsend'' @ [NL, NL]) 3, Close 3]" by code_simp
  have c: "trace (snd (SendMessage env_ok (parsed env_ok [''iotsend'', ''g'']))) =
     [Stat ''g'', Open ''g'' (-1), Stderr file_not_found]" by code_simp
  have d: "fileName (state (parsed env_ok [''iotsend''])) = None" by code_simp
  have f: "trace (snd (SendMessage env_ok (parsed env_ok [''iotsend'']))) =
     [IOTCLIENT_Stream None (''source:iotsend'' @ [NL, NL]) 0]" by code_simp
  from descriptor_lifecycle [of "parsed env_ok [''iotsend'', ''f'']" env_ok] a b c d f
  show ?thesis by simp
qed

text \<open>
  C9, as amended. After \<open>ProcessOptions\<close> has returned, \<open>main\<close> stores the client
  handle, and the send operation changes no field of the record and no string but the
  headers text, which it rewrites in place, every \<^verbatim>\<open>;\<close> becoming a newline; the file
  name is read as it was. At exit \<open>main\<close> frees both strings and resets both pointers.
\<close>

theorem send_rewrites_headers_only:
  "state (snd (SendMessage e m)) = state m \<and>
   heap (snd (SendMessage e m)) =
     (case headers (state m) of
        None \<Rightarrow> heap m
      | Some a \<Rightarrow>
          (heap m)[a := Some (map (\<lambda>c. if c = CHR '';'' then NL else c) (read_str (heap m) a))]) \<and>
   state (snd (sent e argv)) = (state (parsed e argv))\<lparr>hIoTClient := client_create e\<rparr> \<and>
   (\<forall>a. fileName (state (parsed e argv)) = Some a \<longrightarrow>
      read_str (heap (snd (sent e argv))) a = read_str (heap (parsed e argv)) a) \<and>
   (\<forall>a. headers (state (parsed e argv)) = Some a \<longrightarrow>
      read_str (heap (snd (sent e argv))) a =
        map (\<lambda>c. if c = CHR '';'' then NL else c) (read_str (heap (parsed e argv)) a)) \<and>
   headers (state (snd (main e argv))) = None \<and>
   fileName (state (snd (main e argv))) = None \<and>
   (\<forall>a. headers (state (parsed e argv)) = Some a \<longrightarrow>
      (\<exists>s. heap (parsed e argv) ! a = Some s) \<and> a < length (heap (snd (main e argv))) \<and>
      heap (snd (main e argv)) ! a = None) \<and>
   (\<forall>a. fileName (state (parsed e argv)) = Some a \<longrightarrow>
      (\<exists>s. heap (parsed e argv) ! a = Some s) \<and> a < length (heap (snd (main e argv))) \<and>
      heap (snd (main e argv)) ! a = None)"
proof -
  have f: "read_str (heap (snd (sent e argv))) a = read_str (heap (parsed e argv)) a"
    if "fileName (state (parsed e argv)) = Some a" for a
  proof (cases "headers (state (parsed e argv))")
    case None
    then show ?thesis by (simp add: sent_heap)
  next
    case (Some b)
    from parsed_headers_valid [OF Some]
    have v: "b < length (heap (parsed e argv))" and n: "header_args e argv \<noteq> []"
      and b: "b = length (header_args e argv) - 1" by auto
    from parsed_fileName_valid [OF that] have "a = length (header_args e argv)" by simp
    with n b have "a \<noteq> b" by (simp add: pred_length_neq)
    note v this
    with Some show ?thesis by (simp add: sent_heap read_str_update)
  qed
  have h: "read_str (heap (snd (sent e argv))) a =
        map (\<lambda>c. if c = CHR '';'' then NL else c) (read_str (heap (parsed e argv)) a)"
    if "headers (state (parsed e argv)) = Some a" for a
    using parsed_headers_valid [OF that] that
    by (simp add: sent_heap read_str_update rewrite_headers_map)
  have fh: "(\<exists>s. heap (parsed e argv) ! a = Some s) \<and> a < length (heap (snd (main e argv))) \<and>
      heap (snd (main e argv)) ! a = None"
    if "headers (state (parsed e argv)) = Some a" for a
    using parsed_headers_cell [OF that] main_frees_headers [OF that] by simp
  have ff: "(\<exists>s. heap (parsed e argv) ! a = Some s) \<and> a < length (heap (snd (main e argv))) \<and>
      heap (snd (main e argv)) ! a = None"
    if "fileName (state (parsed e argv)) = Some a" for a
    using parsed_fileName_cell [OF that] main_frees_fileName [OF that] by simp
  from f h fh ff show ?thesis
    by (simp add: SendMessage_state SendMessage_heap rewrite_headers_map sent_state main_pointers
          split: option.splits)
qed

theorem send_rewrites_headers_only_witness:
  "fileName (state (parsed env_ok [''iotsend'', ''-H'', ''a;b'', ''f''])) = Some 1 \<and>
   headers (state (parsed env_ok [''iotsend'', ''-H'', ''a;b'', ''f''])) = Some 0 \<and>
   heap (parsed env_ok [''iotsend'', ''-H'', ''a;b'', ''f'']) = [Some ''a;b'', Some ''f''] \<and>
   heap (snd (sent env_ok [''iotsend'', ''-H'', ''a;b'', ''f''])) =
     [Some (''a'' @ [NL] @ ''b''), Some ''f''] \<and>
   heap (snd (main env_ok [''iotsend'', ''-H'', ''a;b'', ''f''])) = [None, None]"
proof -
  have a: "fileName (state (parsed env_ok [''iotsend'', ''-H'', ''a;b'', ''f''])) = Some 1"
    by code_simp
  have b: "headers (state (parsed env_ok [''iotsend'', ''-H'', ''a;b'', ''f''])) = Some 0"
    by code_simp
  have c: "heap (parsed env_ok [''iotsend'', ''-H'', ''a;b'', ''f'']) = [Some ''a;b'', Some ''f'']"
    by code_simp
  have d: "heap (snd (sent env_ok [''iotsend'', ''-H'', ''a;b'', ''f''])) =
     [Some (''a'' @ [NL] @ ''b''), Some ''f'']" by code_simp
  have f: "heap (snd (main env_ok [''iotsend'', ''-H'', ''a;b'', ''f''])) = [None, None]"
    by code_simp
  from send_rewrites_headers_only [of env_ok "parsed env_ok [''iotsend'', ''-H'', ''a;b'', ''f'']"
      "[''iotsend'', ''-H'', ''a;b'', ''f'']"] a b c d f
  show ?thesis by simp
qed

text \<open>
  C9 as stated fails: for \<^verbatim>\<open>iotsend -H "a;b"\<close> the headers pointer is the same before
  and after the send operation, and the string it points to is not.
\<close>

theorem frame_counterexample:
  "headers (state (parsed env_ok [''iotsend'', ''-H'', ''a;b''])) = Some 0 \<and>
   heap (parsed env_ok [''iotsend'', ''-H'', ''a;b'']) = [Some ''a;b''] \<and>
   headers (state (snd (sent env_ok [''iotsend'', ''-H'', ''a;b'']))) = Some 0 \<and>
   heap (snd (sent env_ok [''iotsend'', ''-H'', ''a;b''])) = [Some (''a'' @ [NL] @ ''b'')]"
  by code_simp

text \<open>
  C10, as amended. When no command-line argument is the empty string, the headers and the
  file name of the record, where present, point to allocated strings that are not empty.
\<close>

theorem strings_nonempty:
  "[] \<notin> set argv \<Longrightarrow>
   (\<forall>a. headers (state (parsed e argv)) = Some a \<longrightarrow>
      a < length (heap (parsed e argv)) \<and> read_str (heap (parsed e argv)) a \<noteq> []) \<and>
   (\<forall>a. fileName (state (parsed e argv)) = Some a \<longrightarrow>
      a < length (heap (parsed e argv)) \<and> read_str (heap (parsed e argv)) a \<noteq> [])"
proof -
  assume ne: "[] \<notin> set argv"
  have h: "a < length (heap (parsed e argv)) \<and> read_str (heap (parsed e argv)) a \<noteq> []"
    if "headers (state (parsed e argv)) = Some a" for a
  proof -
    from parsed_headers_valid [OF that]
    have v: "a < length (heap (parsed e argv))" and n: "header_args e argv \<noteq> []"
      and r: "read_str (heap (parsed e argv)) a = last (header_args e argv)" by auto
    from n have "last (header_args e argv) \<in> set (header_args e argv)" by simp
    from header_args_calls [OF this] ne have "last (header_args e argv) \<noteq> []" by auto
    with v r show ?thesis by simp
  qed
  have f: "a < length (heap (parsed e argv)) \<and> read_str (heap (parsed e argv)) a \<noteq> []"
    if "fileName (state (parsed e argv)) = Some a" for a
    using parsed_fileName_valid [OF that] positional_in_argv [of e argv "read_str (heap (parsed e argv)) a"] ne
    by auto
  from h f show ?thesis by blast
qed

theorem strings_nonempty_witness:
  "[] \<notin> set [''iotsend'', ''-Hk:v'', ''f''] \<and>
   headers (state (parsed env_ok [''iotsend'', ''-Hk:v'', ''f''])) = Some 0 \<and>
   read_str (heap (parsed env_ok [''iotsend'', ''-Hk:v'', ''f''])) 0 = ''k:v'' \<and>
   fileName (state (parsed env_ok [''iotsend'', ''-Hk:v'', ''f''])) = Some 1 \<and>
   read_str (heap (parsed env_ok [''iotsend'', ''-Hk:v'', ''f''])) 1 = ''f''"
proof -
  have ne: "[] \<notin> set [''iotsend'', ''-Hk:v'', ''f'']" by simp
  have a: "headers (state (parsed env_ok [''iotsend'', ''-Hk:v'', ''f''])) = Some 0" by code_simp
  have b: "read_str (heap (parsed env_ok [''iotsend'', ''-Hk:v'', ''f''])) 0 = ''k:v''" by code_simp
  have c: "fileName (state (parsed env_ok [''iotsend'', ''-Hk:v'', ''f''])) = Some 1" by code_simp
  have d: "read_str (heap (parsed env_ok [''iotsend'', ''-Hk:v'', ''f''])) 1 = ''f''" by code_simp
  from strings_nonempty [OF ne] ne a b c d show ?thesis by simp
qed

text \<open>
  C10 as stated fails: for \<^verbatim>\<open>iotsend -H "" ""\<close> both pointers are set and both strings
  are empty.
\<close>

theorem strings_nonempty_counterexample:
  "headers (state (parsed env_ok [''iotsend'', ''-H'', '''', ''''])) = Some 0 \<and>
   fileName (state (parsed env_ok [''iotsend'', ''-H'', '''', ''''])) = Some 1 \<and>
   heap (parsed env_ok [''iotsend'', ''-H'', '''', '''']) = [Some [], Some []]"
  by code_simp

end
